theory Spec2Isabelle
  imports Complex_Main
begin

section \<open>Constraint-island discovery (engine\_island.c)\<close>

text \<open>
  A shallow embedding of \<^verbatim>\<open>engine_island.c\<close>.  C \<^verbatim>\<open>int\<close> values are modelled as
  \<^typ>\<open>int\<close> (no claim depends on 32-bit wrap-around), arrays as lists.  Every array access
  of the source is a checked access here: reading or writing outside the array is the error
  \<open>OutOfBounds\<close> carrying the name of the array, and every \<^verbatim>\<open>mjERROR\<close> of the source
  (which aborts the step) is an error value of its own.
\<close>

subsection \<open>Errors and checked array access\<close>

datatype error =
    OutOfBounds string
  | StaticSelfEdge                \<comment> \<open>\<^verbatim>\<open>mjERROR("self-edge of the static tree")\<close>\<close>
  | EdgeArrayTooSmall             \<comment> \<open>\<^verbatim>\<open>mjERROR("edge array too small")\<close>\<close>
  | StackOverflow                 \<comment> \<open>fatal error of the stack allocator\<close>
  | IslandsNotAssignedDofs        \<comment> \<open>\<^verbatim>\<open>mjERROR("not all islands assigned to dofs")\<close>\<close>
  | ConstraintNotInIsland int     \<comment> \<open>\<^verbatim>\<open>mjERROR("constraint %d not in any island", i)\<close>\<close>
  | IslandsNotAssignedEfc         \<comment> \<open>\<^verbatim>\<open>mjERROR("not all islands assigned to constraints")\<close>\<close>

definition bindE :: "error + 'a \<Rightarrow> ('a \<Rightarrow> error + 'b) \<Rightarrow> error + 'b" where
  "bindE r f = (case r of Inl e \<Rightarrow> Inl e | Inr x \<Rightarrow> f x)"

definition rd :: "string \<Rightarrow> 'a list \<Rightarrow> int \<Rightarrow> error + 'a" where
  "rd name xs i =
     (if 0 \<le> i \<and> i < int (length xs) then Inr (xs ! nat i) else Inl (OutOfBounds name))"

definition wr :: "string \<Rightarrow> 'a list \<Rightarrow> int \<Rightarrow> 'a \<Rightarrow> error + 'a list" where
  "wr name xs i v =
     (if 0 \<le> i \<and> i < int (length xs) then Inr (xs[nat i := v]) else Inl (OutOfBounds name))"

text \<open>\<^verbatim>\<open>a[i]++\<close>\<close>

definition incr :: "string \<Rightarrow> int list \<Rightarrow> int \<Rightarrow> error + int list" where
  "incr name xs i = bindE (rd name xs i) (\<lambda>x. wr name xs i (x + 1))"

text \<open>A \<^verbatim>\<open>for (i=lo; i < n; i++)\<close> loop whose body may fail.\<close>

fun foldE :: "('a \<Rightarrow> 's \<Rightarrow> error + 's) \<Rightarrow> 'a list \<Rightarrow> 's \<Rightarrow> error + 's" where
  "foldE f [] s = Inr s"
| "foldE f (x # xs) s = bindE (f x s) (foldE f xs)"

definition for_loop :: "nat \<Rightarrow> int \<Rightarrow> (int \<Rightarrow> 's \<Rightarrow> error + 's) \<Rightarrow> 's \<Rightarrow> error + 's" where
  "for_loop lo n body s = foldE (\<lambda>i. body (int i)) [lo..<nat n] s"

subsection \<open>Model and data\<close>

text \<open>
  Only the fields read or written by \<^verbatim>\<open>engine_island.c\<close>.  \<open>is_sparse\<close> is the value of
  \<^verbatim>\<open>mj_isSparse(m)\<close>.  \<^verbatim>\<open>mjtNum\<close> values (\<open>efc_J\<close>, \<open>tendon_frictionloss\<close>) are only tested
  against zero, and are modelled as reals.
\<close>

record mjModel =
  nv :: int
  ntree :: int
  ntendon :: int
  is_sparse :: bool
  dof_treeid :: "int list"
  body_treeid :: "int list"
  geom_bodyid :: "int list"
  jnt_dofadr :: "int list"
  eq_type :: "int list"
  eq_obj1id :: "int list"
  eq_obj2id :: "int list"
  tendon_frictionloss :: "real list"
  tendon_limited :: "int list"
  tendon_num :: "int list"

record mjContact =
  geom1 :: int
  geom2 :: int

datatype mjtWarning =
    mjWARN_INERTIA | mjWARN_CONTACTFULL | mjWARN_CNSTRFULL | mjWARN_VGEOMFULL
  | mjWARN_BADQPOS | mjWARN_BADQVEL | mjWARN_BADQACC | mjWARN_BADCTRL

text \<open>
  A pointer into the arena is \<open>None\<close> when it is \<^verbatim>\<open>NULL\<close> and \<open>Some xs\<close> when it points to
  an array with contents \<open>xs\<close>.  \<open>warnings\<close> is the log of calls to \<^verbatim>\<open>mj_warning\<close>.
\<close>

record mjData =
  nstack :: nat
  pstack :: nat
  parena :: nat
  nefc :: int
  ncon :: int
  ne :: int
  nf :: int
  efc_type :: "int list"
  efc_id :: "int list"
  efc_J_rownnz :: "int list"
  efc_J_rowadr :: "int list"
  efc_J_colind :: "int list"
  efc_J :: "real list"
  contact :: "mjContact list"
  nisland :: int
  island_dofadr :: "int list option"
  dof_island :: "int list option"
  dof_islandnext :: "int list option"
  island_efcadr :: "int list option"
  efc_island :: "int list option"
  efc_islandnext :: "int list option"
  warnings :: "(mjtWarning \<times> nat) list"

text \<open>The enumerations \<^verbatim>\<open>mjtConstraint\<close> and \<^verbatim>\<open>mjtEq\<close> (declared in the public headers).\<close>

definition mjCNSTR_EQUALITY :: int where "mjCNSTR_EQUALITY = 0"
definition mjCNSTR_FRICTION_DOF :: int where "mjCNSTR_FRICTION_DOF = 1"
definition mjCNSTR_FRICTION_TENDON :: int where "mjCNSTR_FRICTION_TENDON = 2"
definition mjCNSTR_LIMIT_JOINT :: int where "mjCNSTR_LIMIT_JOINT = 3"
definition mjCNSTR_LIMIT_TENDON :: int where "mjCNSTR_LIMIT_TENDON = 4"
definition mjCNSTR_CONTACT_FRICTIONLESS :: int where "mjCNSTR_CONTACT_FRICTIONLESS = 5"
definition mjCNSTR_CONTACT_PYRAMIDAL :: int where "mjCNSTR_CONTACT_PYRAMIDAL = 6"
definition mjCNSTR_CONTACT_ELLIPTIC :: int where "mjCNSTR_CONTACT_ELLIPTIC = 7"

definition mjEQ_CONNECT :: int where "mjEQ_CONNECT = 0"
definition mjEQ_WELD :: int where "mjEQ_WELD = 1"

lemmas mjCNSTR_defs =
  mjCNSTR_EQUALITY_def mjCNSTR_FRICTION_DOF_def mjCNSTR_FRICTION_TENDON_def
  mjCNSTR_LIMIT_JOINT_def mjCNSTR_LIMIT_TENDON_def mjCNSTR_CONTACT_FRICTIONLESS_def
  mjCNSTR_CONTACT_PYRAMIDAL_def mjCNSTR_CONTACT_ELLIPTIC_def mjEQ_CONNECT_def mjEQ_WELD_def

subsection \<open>countMaxEdge\<close>

text \<open>The loop over the tendons, adding to \<open>nedge_max\<close>.\<close>

definition countMaxEdge_tendon :: "mjModel \<Rightarrow> int \<Rightarrow> int \<Rightarrow> error + int" where
  "countMaxEdge_tendon m i nedge_max =
     bindE (rd ''tendon_frictionloss'' (tendon_frictionloss m) i) (\<lambda>fl.
     bindE (if fl \<noteq> 0
            then bindE (rd ''tendon_num'' (tendon_num m) i) (\<lambda>n. Inr (nedge_max + n))
            else Inr nedge_max) (\<lambda>nedge_max.
     bindE (rd ''tendon_limited'' (tendon_limited m) i) (\<lambda>lim.
     if lim \<noteq> 0
     then bindE (rd ''tendon_num'' (tendon_num m) i) (\<lambda>n. Inr (nedge_max + n))
     else Inr nedge_max)))"

definition countMaxEdge :: "mjModel \<Rightarrow> mjData \<Rightarrow> error + int" where
  "countMaxEdge m d =
     for_loop 0 (ntendon m) (countMaxEdge_tendon m) (0 + 2 * ncon d + 2 * ne d + nf d)"

subsection \<open>treeNext\<close>

lemma bindE_cong [fundef_cong]:
  "r = r' \<Longrightarrow> (\<And>x. r' = Inr x \<Longrightarrow> f x = f' x) \<Longrightarrow> bindE r f = bindE r' f'"
  by (auto simp: bindE_def split: sum.splits)

text \<open>
  The dense scan (\<open>n\<close> is \<^verbatim>\<open>m->nv\<close>) follows the sparse one.
  The sparse scan: \<open>adr\<close> is \<^verbatim>\<open>efc_J_rowadr[i]\<close>, so that \<^verbatim>\<open>colind[j]\<close> of the source is
  \<^verbatim>\<open>efc_J_colind[adr + j]\<close>.  The result is \<^verbatim>\<open>tree_next\<close> and the final value of \<^verbatim>\<open>j\<close>.
\<close>

function treeNext_sparse :: "mjModel \<Rightarrow> mjData \<Rightarrow> int \<Rightarrow> int \<Rightarrow> int \<Rightarrow> int \<Rightarrow> error + (int \<times> int)"
  where
  "treeNext_sparse m d tree adr rownnz j =
     (if j < rownnz then
        bindE (rd ''efc_J_colind'' (efc_J_colind d) (adr + j)) (\<lambda>c.
        bindE (rd ''dof_treeid'' (dof_treeid m) c) (\<lambda>tree_j.
        if tree_j \<noteq> tree then Inr (tree_j, j)
        else treeNext_sparse m d tree adr rownnz (j + 1)))
      else Inr (-1, j))"
  by pat_completeness auto
termination
  by (relation "measure (\<lambda>(m, d, tree, adr, rownnz, j). nat (rownnz - j))") auto

declare treeNext_sparse.simps [simp del]

function treeNext_dense :: "mjModel \<Rightarrow> mjData \<Rightarrow> int \<Rightarrow> int \<Rightarrow> int \<Rightarrow> int \<Rightarrow> error + (int \<times> int)"
  where
  "treeNext_dense m d tree i n j =
     (if j < n then
        bindE (rd ''efc_J'' (efc_J d) (n * i + j)) (\<lambda>x.
        if x \<noteq> 0 then
          bindE (rd ''dof_treeid'' (dof_treeid m) j) (\<lambda>tree_j.
          if tree_j \<noteq> tree then Inr (tree_j, j)
          else treeNext_dense m d tree i n (j + 1))
        else treeNext_dense m d tree i n (j + 1))
      else Inr (-1, j))"
  by pat_completeness auto
termination
  by (relation "measure (\<lambda>(m, d, tree, i, n, j). nat (n - j))") auto

declare treeNext_dense.simps [simp del]

text \<open>
  \<open>index\<close> is \<open>None\<close> for a null pointer and \<open>Some j0\<close> for a pointer to a cursor holding
  \<open>j0\<close>.  The result is \<^verbatim>\<open>tree_next\<close> and the final value of \<^verbatim>\<open>j\<close>, which is the value
  saved to \<^verbatim>\<open>*index\<close> when \<open>index\<close> is given.
\<close>

definition treeNext :: "mjModel \<Rightarrow> mjData \<Rightarrow> int \<Rightarrow> int \<Rightarrow> int option \<Rightarrow> error + (int \<times> int)"
  where
  "treeNext m d tree i index =
     (let j0 = (case index of Some x \<Rightarrow> x | None \<Rightarrow> 0) in
      if is_sparse m then
        bindE (rd ''efc_J_rownnz'' (efc_J_rownnz d) i) (\<lambda>rownnz.
        bindE (rd ''efc_J_rowadr'' (efc_J_rowadr d) i) (\<lambda>adr.
        treeNext_sparse m d tree adr rownnz j0))
      else treeNext_dense m d tree i (nv m) j0)"

subsection \<open>addEdge\<close>

text \<open>
  The edge array is modelled by the list of its records: record \<open>e\<close> is the pair
  \<^verbatim>\<open>(edge[2*e], edge[2*e+1])\<close>, and \<^verbatim>\<open>nedge\<close> is the length of the list.  The writes to the
  array are guarded by the explicit size checks of the source.
\<close>

definition addEdge ::
  "int list \<Rightarrow> (int \<times> int) list \<Rightarrow> int \<Rightarrow> int \<Rightarrow> int \<Rightarrow> error + (int list \<times> (int \<times> int) list)"
  where
  "addEdge treenedge edge tree1 tree2 nedge_max =
     (if tree1 = -1 \<and> tree2 = -1 then Inl StaticSelfEdge
      else
        let t1 = (if tree1 = -1 then tree2 else tree1);
            t2 = (if tree2 = -1 then t1 else tree2);
            nedge = int (length edge);
            p1 = (if nedge \<noteq> 0 then fst (last edge) else -1);
            p2 = (if nedge \<noteq> 0 then snd (last edge) else -1)
        in
          if t1 = t2 then
            if nedge \<noteq> 0 \<and> t1 = p1 \<and> t1 = p2 then Inr (treenedge, edge)
            else if nedge \<ge> nedge_max then Inl EdgeArrayTooSmall
            else
              bindE (incr ''treenedge'' treenedge t1) (\<lambda>treenedge.
              Inr (treenedge, edge @ [(t1, t1)]))
          else
            if nedge \<noteq> 0 \<and> ((t1 = p1 \<and> t2 = p2) \<or> (t1 = p2 \<and> t2 = p1))
            then Inr (treenedge, edge)
            else if nedge + 2 > nedge_max then Inl EdgeArrayTooSmall
            else
              bindE (incr ''treenedge'' treenedge t1) (\<lambda>treenedge.
              bindE (incr ''treenedge'' treenedge t2) (\<lambda>treenedge.
              Inr (treenedge, edge @ [(t1, t2), (t2, t1)]))))"

subsection \<open>findEdges\<close>

text \<open>
  For the termination of the scan of one Jacobian row: the number of cursor positions of
  row \<open>i\<close>, and the tree of the incidence at cursor position \<open>j\<close> (if there is one).
\<close>

definition row_limit :: "mjModel \<Rightarrow> mjData \<Rightarrow> int \<Rightarrow> int" where
  "row_limit m d i =
     (if is_sparse m
      then (case rd ''efc_J_rownnz'' (efc_J_rownnz d) i of Inr r \<Rightarrow> r | Inl e \<Rightarrow> 0)
      else nv m)"

definition entry_tree :: "mjModel \<Rightarrow> mjData \<Rightarrow> int \<Rightarrow> int \<Rightarrow> int option" where
  "entry_tree m d i j =
     (if \<not> j < row_limit m d i then None
      else if is_sparse m then
        (case bindE (rd ''efc_J_rowadr'' (efc_J_rowadr d) i) (\<lambda>adr.
              bindE (rd ''efc_J_colind'' (efc_J_colind d) (adr + j)) (\<lambda>c.
              rd ''dof_treeid'' (dof_treeid m) c))
         of Inr t \<Rightarrow> Some t | Inl e \<Rightarrow> None)
      else
        (case rd ''efc_J'' (efc_J d) (nv m * i + j) of
           Inr x \<Rightarrow> (if x \<noteq> 0
                     then (case rd ''dof_treeid'' (dof_treeid m) j of
                             Inr t \<Rightarrow> Some t | Inl e \<Rightarrow> None)
                     else None)
         | Inl e \<Rightarrow> None))"

lemma bindE_Inr_iff: "bindE r f = Inr y \<longleftrightarrow> (\<exists>x. r = Inr x \<and> f x = Inr y)"
  by (cases r) (auto simp: bindE_def)

lemma bindE_Inl_iff:
  "bindE r f = Inl e \<longleftrightarrow> r = Inl e \<or> (\<exists>x. r = Inr x \<and> f x = Inl e)"
  by (cases r) (auto simp: bindE_def)

lemma bindE_simps [simp]: "bindE (Inl e) f = Inl e" "bindE (Inr x) f = f x"
  by (simp_all add: bindE_def)

lemma treeNext_sparse_found:
  "treeNext_sparse m d tree adr rownnz j0 = Inr (t, j) \<Longrightarrow>
   j0 \<le> j \<and>
   (t \<noteq> -1 \<longrightarrow> j < rownnz \<and>
      (\<exists>c. rd ''efc_J_colind'' (efc_J_colind d) (adr + j) = Inr c \<and>
           rd ''dof_treeid'' (dof_treeid m) c = Inr t)) \<and>
   ((\<exists>c. rd ''efc_J_colind'' (efc_J_colind d) (adr + j0) = Inr c \<and>
         rd ''dof_treeid'' (dof_treeid m) c = Inr tree) \<and> j0 < rownnz \<longrightarrow> j0 < j)"
proof (induction m d tree adr rownnz j0 rule: treeNext_sparse.induct)
  case (1 m d tree adr rownnz j0)
  show ?case
  proof (cases "j0 < rownnz")
    case False
    with "1.prems" show ?thesis
      by (simp add: treeNext_sparse.simps[of m d tree adr rownnz j0])
  next
    case True
    from "1.prems" True obtain c tree_j where
      c: "rd ''efc_J_colind'' (efc_J_colind d) (adr + j0) = Inr c" and
      tj: "rd ''dof_treeid'' (dof_treeid m) c = Inr tree_j" and
      rest: "(if tree_j \<noteq> tree then Inr (tree_j, j0)
              else treeNext_sparse m d tree adr rownnz (j0 + 1)) = Inr (t, j)"
      by (auto simp: treeNext_sparse.simps[of m d tree adr rownnz j0] bindE_Inr_iff)
    show ?thesis
    proof (cases "tree_j \<noteq> tree")
      case True
      with rest c tj \<open>j0 < rownnz\<close> show ?thesis by auto
    next
      case False
      with rest have r: "treeNext_sparse m d tree adr rownnz (j0 + 1) = Inr (t, j)" by simp
      from "1.IH"[OF True c tj _ r] False show ?thesis by auto
    qed
  qed
qed

lemma treeNext_dense_found:
  "treeNext_dense m d tree i n j0 = Inr (t, j) \<Longrightarrow>
   j0 \<le> j \<and>
   (t \<noteq> -1 \<longrightarrow> j < n \<and>
      (\<exists>x. rd ''efc_J'' (efc_J d) (n * i + j) = Inr x \<and> x \<noteq> 0) \<and>
      rd ''dof_treeid'' (dof_treeid m) j = Inr t) \<and>
   ((\<exists>x. rd ''efc_J'' (efc_J d) (n * i + j0) = Inr x \<and> x \<noteq> 0) \<and>
      rd ''dof_treeid'' (dof_treeid m) j0 = Inr tree \<and> j0 < n \<longrightarrow> j0 < j)"
proof (induction m d tree i n j0 rule: treeNext_dense.induct)
  case (1 m d tree i n j0)
  show ?case
  proof (cases "j0 < n")
    case False
    with "1.prems" show ?thesis
      by (simp add: treeNext_dense.simps[of m d tree i n j0])
  next
    case True
    from "1.prems" True obtain x where
      x: "rd ''efc_J'' (efc_J d) (n * i + j0) = Inr x" and
      rest: "(if x \<noteq> 0 then
               bindE (rd ''dof_treeid'' (dof_treeid m) j0) (\<lambda>tree_j.
                 if tree_j \<noteq> tree then Inr (tree_j, j0)
                 else treeNext_dense m d tree i n (j0 + 1))
              else treeNext_dense m d tree i n (j0 + 1)) = Inr (t, j)"
      by (auto simp: treeNext_dense.simps[of m d tree i n j0] bindE_Inr_iff)
    show ?thesis
    proof (cases "x \<noteq> 0")
      case False
      with rest have r: "treeNext_dense m d tree i n (j0 + 1) = Inr (t, j)" by simp
      from "1.IH"(2)[OF True x False r] False x show ?thesis by auto
    next
      case nz: True
      with rest obtain tree_j where
        tj: "rd ''dof_treeid'' (dof_treeid m) j0 = Inr tree_j" and
        rest': "(if tree_j \<noteq> tree then Inr (tree_j, j0)
                 else treeNext_dense m d tree i n (j0 + 1)) = Inr (t, j)"
        by (auto simp: bindE_Inr_iff)
      show ?thesis
      proof (cases "tree_j \<noteq> tree")
        case True
        with rest' x nz tj \<open>j0 < n\<close> show ?thesis by auto
      next
        case False
        with rest' have r: "treeNext_dense m d tree i n (j0 + 1) = Inr (t, j)" by simp
        from "1.IH"(1)[OF True x nz tj _ r] False show ?thesis by auto
      qed
    qed
  qed
qed

lemma treeNext_sparse_unfold:
  "is_sparse m \<Longrightarrow> treeNext m d tree i (Some j0) = Inr r \<Longrightarrow>
   \<exists>rownnz adr. rd ''efc_J_rownnz'' (efc_J_rownnz d) i = Inr rownnz \<and>
     rd ''efc_J_rowadr'' (efc_J_rowadr d) i = Inr adr \<and>
     treeNext_sparse m d tree adr rownnz j0 = Inr r"
  by (simp add: treeNext_def bindE_Inr_iff)

lemma treeNext_dense_unfold:
  "\<not> is_sparse m \<Longrightarrow> treeNext m d tree i (Some j0) = Inr r \<Longrightarrow>
   treeNext_dense m d tree i (nv m) j0 = Inr r"
  by (simp add: treeNext_def)

lemma entry_tree_sparse:
  "is_sparse m \<Longrightarrow> rd ''efc_J_rownnz'' (efc_J_rownnz d) i = Inr rownnz \<Longrightarrow>
   rd ''efc_J_rowadr'' (efc_J_rowadr d) i = Inr adr \<Longrightarrow>
   entry_tree m d i j = Some t \<longleftrightarrow>
     j < rownnz \<and> (\<exists>c. rd ''efc_J_colind'' (efc_J_colind d) (adr + j) = Inr c \<and>
                       rd ''dof_treeid'' (dof_treeid m) c = Inr t)"
  unfolding entry_tree_def row_limit_def
  by (cases "rd ''efc_J_colind'' (efc_J_colind d) (adr + j)";
      cases "rd ''dof_treeid'' (dof_treeid m)
               (projr (rd ''efc_J_colind'' (efc_J_colind d) (adr + j)))")
     simp_all

lemma entry_tree_dense:
  "\<not> is_sparse m \<Longrightarrow>
   entry_tree m d i j = Some t \<longleftrightarrow>
     j < nv m \<and> (\<exists>x. rd ''efc_J'' (efc_J d) (nv m * i + j) = Inr x \<and> x \<noteq> 0) \<and>
     rd ''dof_treeid'' (dof_treeid m) j = Inr t"
  unfolding entry_tree_def row_limit_def
  by (cases "rd ''efc_J'' (efc_J d) (nv m * i + j)";
      cases "rd ''dof_treeid'' (dof_treeid m) j")
     simp_all

lemma treeNext_cursor:
  assumes "treeNext m d tree i (Some j0) = Inr (t, j)"
  shows "j0 \<le> j"
    and "t \<noteq> -1 \<Longrightarrow> entry_tree m d i j = Some t"
    and "entry_tree m d i j0 = Some tree \<Longrightarrow> j0 < j"
proof -
  have "j0 \<le> j \<and> (t \<noteq> -1 \<longrightarrow> entry_tree m d i j = Some t) \<and>
        (entry_tree m d i j0 = Some tree \<longrightarrow> j0 < j)"
  proof (cases "is_sparse m")
    case True
    from treeNext_sparse_unfold[OF True assms] obtain rownnz adr where
      r: "rd ''efc_J_rownnz'' (efc_J_rownnz d) i = Inr rownnz" and
      a: "rd ''efc_J_rowadr'' (efc_J_rowadr d) i = Inr adr" and
      s: "treeNext_sparse m d tree adr rownnz j0 = Inr (t, j)"
      by blast
    from treeNext_sparse_found[OF s] show ?thesis
      unfolding entry_tree_sparse[OF True r a] by blast
  next
    case False
    from treeNext_dense_unfold[OF False assms]
    have s: "treeNext_dense m d tree i (nv m) j0 = Inr (t, j)" .
    from treeNext_dense_found[OF s] show ?thesis
      unfolding entry_tree_dense[OF False] by blast
  qed
  then show "j0 \<le> j"
    and "t \<noteq> -1 \<Longrightarrow> entry_tree m d i j = Some t"
    and "entry_tree m d i j0 = Some tree \<Longrightarrow> j0 < j"
    by blast+
qed

lemma entry_tree_limit: "entry_tree m d i j = Some t \<Longrightarrow> j < row_limit m d i"
  by (auto simp: entry_tree_def split: if_splits)

text \<open>
  The \<^verbatim>\<open>while\<close> loop of the generic case, with the call of \<^verbatim>\<open>treeNext\<close> that computes
  \<^verbatim>\<open>tree3\<close> (before the loop and at the end of its body) moved to the head of the loop:
  \<open>tree2\<close> is the last tree found and \<open>index\<close> the cursor.
\<close>

function findEdges_chain ::
  "mjModel \<Rightarrow> mjData \<Rightarrow> int \<Rightarrow> int \<Rightarrow> int \<Rightarrow> int \<Rightarrow> int list \<times> (int \<times> int) list \<Rightarrow>
   error + (int list \<times> (int \<times> int) list)"
  where
  "findEdges_chain m d nedge_max i tree2 index (treenedge, edge) =
     bindE (treeNext m d tree2 i (Some index)) (\<lambda>(tree3, index').
     if tree3 > -1 \<and> tree3 \<noteq> tree2 then
       bindE (addEdge treenedge edge tree2 tree3 nedge_max)
         (findEdges_chain m d nedge_max i tree3 index')
     else Inr (treenedge, edge))"
  by pat_completeness auto
termination
proof (relation "measure (\<lambda>(m, d, nedge_max, i, tree2, index, st).
         2 * nat (row_limit m d i - index) +
         (if entry_tree m d i index = Some tree2 then 0 else 1))", goal_cases)
  case 1
  show ?case by simp
next
  case (2 m d nedge_max i tree2 index treenedge edge x tree3 index' st)
  then have tn: "treeNext m d tree2 i (Some index) = Inr (tree3, index')"
    and t3: "tree3 \<noteq> -1" "tree3 \<noteq> tree2" by auto
  from treeNext_cursor(2)[OF tn t3(1)] have e: "entry_tree m d i index' = Some tree3" .
  from entry_tree_limit[OF e] have lim: "index' < row_limit m d i" .
  from treeNext_cursor(1)[OF tn] have le: "index \<le> index'" .
  have "2 * nat (row_limit m d i - index') + 0
        < 2 * nat (row_limit m d i - index) +
          (if entry_tree m d i index = Some tree2 then 0 else 1)"
  proof (cases "index = index'")
    case True
    with e t3(2) have "entry_tree m d i index \<noteq> Some tree2" by auto
    with True show ?thesis by auto
  next
    case False
    with le lim have "nat (row_limit m d i - index') < nat (row_limit m d i - index)"
      by linarith
    then show ?thesis by linarith
  qed
  with e show ?case by (simp only: in_measure prod.case refl if_True)
qed

declare findEdges_chain.simps [simp del]

definition findEdges_generic ::
  "mjModel \<Rightarrow> mjData \<Rightarrow> int \<Rightarrow> int \<Rightarrow> int list \<times> (int \<times> int) list \<Rightarrow>
   error + (int list \<times> (int \<times> int) list)"
  where
  "findEdges_generic m d nedge_max i st =
     (case st of (treenedge, edge) \<Rightarrow>
      bindE (treeNext m d (-1) i (Some 0)) (\<lambda>(tree1, index).
      bindE (treeNext m d tree1 i (Some index)) (\<lambda>(tree2, index).
      if tree2 = -1 then addEdge treenedge edge tree1 tree1 nedge_max
      else
        bindE (addEdge treenedge edge tree1 tree2 nedge_max)
          (findEdges_chain m d nedge_max i tree2 index))))"

text \<open>
  The edges of the constraint that starts at row \<open>i\<close>, of type \<open>ty\<close> and cid \<open>cid\<close>: the fast
  paths, then the generic case.
\<close>

definition findEdges_constraint ::
  "mjModel \<Rightarrow> mjData \<Rightarrow> int \<Rightarrow> int \<Rightarrow> int \<Rightarrow> int \<Rightarrow> int list \<times> (int \<times> int) list \<Rightarrow>
   error + (int list \<times> (int \<times> int) list)"
  where
  "findEdges_constraint m d nedge_max i ty cid st =
     (case st of (treenedge, edge) \<Rightarrow>
      if ty = mjCNSTR_FRICTION_DOF then
        bindE (rd ''dof_treeid'' (dof_treeid m) cid) (\<lambda>tree1.
        addEdge treenedge edge tree1 tree1 nedge_max)
      else if ty = mjCNSTR_LIMIT_JOINT then
        bindE (rd ''jnt_dofadr'' (jnt_dofadr m) cid) (\<lambda>dofadr.
        bindE (rd ''dof_treeid'' (dof_treeid m) dofadr) (\<lambda>tree1.
        addEdge treenedge edge tree1 tree1 nedge_max))
      else if ty = mjCNSTR_CONTACT_FRICTIONLESS \<or> ty = mjCNSTR_CONTACT_PYRAMIDAL \<or>
              ty = mjCNSTR_CONTACT_ELLIPTIC then
        bindE (rd ''contact'' (contact d) cid) (\<lambda>con.
        bindE (rd ''geom_bodyid'' (geom_bodyid m) (geom1 con)) (\<lambda>b1.
        bindE (rd ''body_treeid'' (body_treeid m) b1) (\<lambda>tree1.
        bindE (rd ''geom_bodyid'' (geom_bodyid m) (geom2 con)) (\<lambda>b2.
        bindE (rd ''body_treeid'' (body_treeid m) b2) (\<lambda>tree2.
        addEdge treenedge edge tree1 tree2 nedge_max)))))
      else
        bindE (if ty = mjCNSTR_EQUALITY
               then rd ''eq_type'' (eq_type m) cid else Inr (-1)) (\<lambda>eqt.
        if ty = mjCNSTR_EQUALITY \<and> (eqt = mjEQ_CONNECT \<or> eqt = mjEQ_WELD) then
          bindE (rd ''eq_obj1id'' (eq_obj1id m) cid) (\<lambda>o1.
          bindE (rd ''body_treeid'' (body_treeid m) o1) (\<lambda>tree1.
          bindE (rd ''eq_obj2id'' (eq_obj2id m) cid) (\<lambda>o2.
          bindE (rd ''body_treeid'' (body_treeid m) o2) (\<lambda>tree2.
          addEdge treenedge edge tree1 tree2 nedge_max))))
        else findEdges_generic m d nedge_max i (treenedge, edge)))"

text \<open>
  The body of the loop over the rows.  The state is \<^verbatim>\<open>efc_type\<close>, \<^verbatim>\<open>efc_id\<close> (the
  constraint of the previous row), \<^verbatim>\<open>treenedge\<close> and the edge records.
\<close>

definition findEdges_row ::
  "mjModel \<Rightarrow> mjData \<Rightarrow> int \<Rightarrow> int \<Rightarrow> int \<times> int \<times> int list \<times> (int \<times> int) list \<Rightarrow>
   error + (int \<times> int \<times> int list \<times> (int \<times> int) list)"
  where
  "findEdges_row m d nedge_max i s =
     (case s of (ty0, cid0, treenedge, edge) \<Rightarrow>
      bindE (rd ''efc_type'' (efc_type d) i) (\<lambda>ty.
      bindE (rd ''efc_id'' (efc_id d) i) (\<lambda>cid.
      if ty0 = ty \<and> cid0 = cid then Inr (ty0, cid0, treenedge, edge)
      else
        bindE (findEdges_constraint m d nedge_max i ty cid (treenedge, edge))
          (\<lambda>(treenedge, edge). Inr (ty, cid, treenedge, edge)))))"

definition findEdges ::
  "mjModel \<Rightarrow> mjData \<Rightarrow> int \<Rightarrow> error + (int list \<times> (int \<times> int) list)" where
  "findEdges m d nedge_max =
     bindE (for_loop 0 (nefc d) (findEdges_row m d nedge_max)
              (-1, -1, replicate (nat (ntree m)) 0, []))
       (\<lambda>(ty, cid, treenedge, edge). Inr (treenedge, edge))"

subsection \<open>mj\_floodFill\<close>

text \<open>
  The source range of \<^verbatim>\<open>memcpy(stack + nstack, colind + rowadr[v], rownnz[v]*sizeof(int))\<close>.
\<close>

definition slice :: "string \<Rightarrow> 'a list \<Rightarrow> int \<Rightarrow> int \<Rightarrow> error + 'a list" where
  "slice name xs a n =
     (if 0 \<le> a \<and> 0 \<le> n \<and> a + n \<le> int (length xs)
      then Inr (take (nat n) (drop (nat a) xs)) else Inl (OutOfBounds name))"

lemma count_list_update_less:
  "i < length xs \<Longrightarrow> xs ! i = x \<Longrightarrow> y \<noteq> x \<Longrightarrow>
   count_list (xs[i := y]) x < count_list xs x"
proof (induction xs arbitrary: i)
  case Nil
  then show ?case by simp
next
  case (Cons a xs)
  then show ?case by (cases i) auto
qed

text \<open>
  The \<^verbatim>\<open>while (nstack)\<close> loop.  The list \<open>stack\<close> is the live part
  \<^verbatim>\<open>stack[0..nstack)\<close> of the stack array, its top at the end; \<open>cap\<close> is the length of the stack
  array; \<open>k\<close> is \<^verbatim>\<open>nisland\<close>.
\<close>

function floodFill_dfs ::
  "int list \<Rightarrow> int list \<Rightarrow> int list \<Rightarrow> nat \<Rightarrow> nat \<Rightarrow> int list \<Rightarrow> int list \<Rightarrow> error + int list"
  where
  "floodFill_dfs rownnz rowadr colind cap k island stack =
     (if stack = [] then Inr island
      else
        bindE (rd ''island'' island (last stack)) (\<lambda>iv.
        if iv \<noteq> -1 then floodFill_dfs rownnz rowadr colind cap k island (butlast stack)
        else
          bindE (wr ''island'' island (last stack) (int k)) (\<lambda>island'.
          bindE (rd ''rowadr'' rowadr (last stack)) (\<lambda>adr.
          bindE (rd ''rownnz'' rownnz (last stack)) (\<lambda>nnz.
          bindE (slice ''colind'' colind adr nnz) (\<lambda>row.
          if length (butlast stack) + length row > cap then Inl (OutOfBounds ''stack'')
          else floodFill_dfs rownnz rowadr colind cap k island' (butlast stack @ row)))))))"
  by pat_completeness auto
termination
proof (relation "inv_image (less_than <*lex*> less_than)
         (\<lambda>(rownnz, rowadr, colind, cap, k, island, stack).
            (count_list island (-1), length stack))", goal_cases)
  case 1
  show ?case by (intro wf_inv_image wf_lex_prod wf_less_than)
next
  case (2 rownnz rowadr colind cap k island stack iv)
  then show ?case by simp
next
  case (3 rownnz rowadr colind cap k island stack iv island' adr nnz row)
  from 3(2,3) have v: "0 \<le> last stack" "nat (last stack) < length island"
    "island ! nat (last stack) = -1"
    by (auto simp: rd_def split: if_splits)
  from 3(4) v have "island' = island[nat (last stack) := int k]"
    by (auto simp: wr_def split: if_splits)
  with count_list_update_less[OF v(2,3), of "int k"] show ?case by simp
qed

declare floodFill_dfs.simps [simp del]

text \<open>The body of the loop over the vertices; the state is \<^verbatim>\<open>island\<close> and \<^verbatim>\<open>nisland\<close>.\<close>

definition floodFill_vertex ::
  "int list \<Rightarrow> int list \<Rightarrow> int list \<Rightarrow> nat \<Rightarrow> int \<Rightarrow> int list \<times> nat \<Rightarrow> error + (int list \<times> nat)"
  where
  "floodFill_vertex rownnz rowadr colind cap i s =
     (case s of (island, k) \<Rightarrow>
      bindE (rd ''island'' island i) (\<lambda>iv.
      if iv \<noteq> -1 then Inr (island, k)
      else
        bindE (rd ''rownnz'' rownnz i) (\<lambda>nnz.
        if nnz = 0 then Inr (island, k)
        else if cap < 1 then Inl (OutOfBounds ''stack'')
        else
          bindE (floodFill_dfs rownnz rowadr colind cap k island [i]) (\<lambda>island.
          Inr (island, k + 1)))))"

text \<open>
  \<open>cap\<close> is the length of the array \<^verbatim>\<open>stack\<close>; the result is the array \<^verbatim>\<open>island\<close> (of \<open>nr\<close>
  entries, all set to \<open>-1\<close> first) and the number of islands.
\<close>

definition mj_floodFill ::
  "int \<Rightarrow> int list \<Rightarrow> int list \<Rightarrow> int list \<Rightarrow> nat \<Rightarrow> error + (int list \<times> nat)" where
  "mj_floodFill nr rownnz rowadr colind cap =
     for_loop 0 nr (floodFill_vertex rownnz rowadr colind cap) (replicate (nat nr) (-1), 0)"

subsection \<open>Allocation\<close>

definition sizeof_int :: nat where "sizeof_int = 4"
definition sizeof_mjtNum :: nat where "sizeof_mjtNum = 8"

text \<open>
  Modelled from the spec: the stack allocator \<^verbatim>\<open>mj_stackAllocInt\<close> (engine\_io.c is not
  part of the sources at hand).  The stack and the arena share one buffer of \<open>nstack\<close>
  \<^verbatim>\<open>mjtNum\<close> cells: the arena grows from its start (\<open>parena\<close> bytes are in use), the stack
  from its end (\<open>pstack\<close> cells are in use).  An allocation that does not fit is a fatal
  error.  The result is the new state and the byte offset of the block in the buffer.
\<close>

definition mj_stackAllocInt :: "mjData \<Rightarrow> int \<Rightarrow> error + (mjData \<times> nat)" where
  "mj_stackAllocInt d sz =
     (let n = (nat sz * sizeof_int + sizeof_mjtNum - 1) div sizeof_mjtNum in
      if pstack d + n + (parena d + sizeof_mjtNum - 1) div sizeof_mjtNum > nstack d
      then Inl StackOverflow
      else Inr (d\<lparr>pstack := pstack d + n\<rparr>, (nstack d - (pstack d + n)) * sizeof_mjtNum))"

text \<open>
  Modelled from the spec: the arena allocator \<^verbatim>\<open>mj_arenaAlloc\<close> (bump allocation with
  alignment; the bytes available are those of \<^verbatim>\<open>clearIsland\<close>'s poisoned region,
  \<^verbatim>\<open>(d->nstack - d->pstack) * sizeof(mjtNum)\<close>).  \<open>None\<close> is the null pointer.
\<close>

definition mj_arenaAlloc :: "mjData \<Rightarrow> nat \<Rightarrow> nat \<Rightarrow> (mjData \<times> nat) option" where
  "mj_arenaAlloc d bytes alignment =
     (let misalignment = parena d mod alignment;
          padding = (if misalignment \<noteq> 0 then alignment - misalignment else 0)
      in if parena d + padding + bytes > (nstack d - pstack d) * sizeof_mjtNum then None
         else Some (d\<lparr>parena := parena d + padding + bytes\<rparr>, parena d + padding))"

text \<open>
  Allocated memory is not initialised: \<open>mem\<close> is the content of the buffer before the call
  (an \<^verbatim>\<open>int\<close> for each byte offset), and a block of \<open>n\<close> ints at offset \<open>p\<close> starts as:
\<close>

definition fresh :: "(nat \<Rightarrow> int) \<Rightarrow> nat \<Rightarrow> int \<Rightarrow> int list" where
  "fresh mem p n = map (\<lambda>k. mem (p + sizeof_int * k)) [0..<nat n]"

text \<open>Modelled from the spec: \<^verbatim>\<open>mj_warning\<close> records the warning and its info.\<close>

definition mj_warning :: "mjData \<Rightarrow> mjtWarning \<Rightarrow> nat \<Rightarrow> mjData" where
  "mj_warning d w info = d\<lparr>warnings := warnings d @ [(w, info)]\<rparr>"

subsection \<open>clearIsland\<close>

definition clearIsland :: "mjData \<Rightarrow> nat \<Rightarrow> mjData" where
  "clearIsland d parena_old =
     d\<lparr>island_dofadr := None, dof_island := None, dof_islandnext := None,
       island_efcadr := None, efc_island := None, efc_islandnext := None,
       nefc := 0, nisland := 0, parena := parena_old\<rparr>"

subsection \<open>mj\_island\<close>

text \<open>
  The loop that computes \<^verbatim>\<open>rowadr\<close> while resetting \<^verbatim>\<open>rownnz\<close> (body for \<open>r \<ge> 1\<close>), and
  the loop that copies the column indices (body for the edge record \<open>(row, col)\<close>).
\<close>

definition island_rowadr_step ::
  "int \<Rightarrow> int list \<times> int list \<Rightarrow> error + (int list \<times> int list)" where
  "island_rowadr_step r s =
     (case s of (rowadr, rownnz) \<Rightarrow>
      bindE (rd ''rowadr'' rowadr (r - 1)) (\<lambda>a.
      bindE (rd ''rownnz'' rownnz (r - 1)) (\<lambda>c.
      bindE (wr ''rowadr'' rowadr r (a + c)) (\<lambda>rowadr.
      bindE (wr ''rownnz'' rownnz (r - 1) 0) (\<lambda>rownnz.
      Inr (rowadr, rownnz))))))"

definition island_colind_step ::
  "int list \<Rightarrow> int \<times> int \<Rightarrow> int list \<times> int list \<Rightarrow> error + (int list \<times> int list)" where
  "island_colind_step rowadr e s =
     (case (e, s) of ((row, col), (rownnz, colind)) \<Rightarrow>
      bindE (rd ''rowadr'' rowadr row) (\<lambda>a.
      bindE (rd ''rownnz'' rownnz row) (\<lambda>k.
      bindE (wr ''colind'' colind (a + k) col) (\<lambda>colind.
      bindE (wr ''rownnz'' rownnz row (k + 1)) (\<lambda>rownnz.
      Inr (rownnz, colind))))))"

text \<open>
  The first part of \<^verbatim>\<open>mj_island\<close>, up to the call of \<^verbatim>\<open>mj_floodFill\<close>: the result is the
  data with \<^verbatim>\<open>nisland\<close> set, and \<^verbatim>\<open>tree_island\<close>.  (\<^verbatim>\<open>treenedge\<close> of \<^verbatim>\<open>findEdges\<close> is the
  array \<^verbatim>\<open>rownnz\<close>, which \<^verbatim>\<open>findEdges\<close> clears.)
\<close>

definition island_discover ::
  "mjModel \<Rightarrow> mjData \<Rightarrow> (nat \<Rightarrow> int) \<Rightarrow> error + (mjData \<times> int list)" where
  "island_discover m d mem =
     bindE (countMaxEdge m d) (\<lambda>nedge_max.
     bindE (mj_stackAllocInt d (2 * nedge_max)) (\<lambda>(d, p_edge).
     bindE (mj_stackAllocInt d (ntree m)) (\<lambda>(d, p_rownnz).
     bindE (findEdges m d nedge_max) (\<lambda>(rownnz, edge).
     bindE (mj_stackAllocInt d (ntree m)) (\<lambda>(d, p_rowadr).
     bindE (wr ''rowadr'' (fresh mem p_rowadr (ntree m)) 0 0) (\<lambda>rowadr.
     bindE (for_loop 1 (ntree m) island_rowadr_step (rowadr, rownnz)) (\<lambda>(rowadr, rownnz).
     bindE (wr ''rownnz'' rownnz (ntree m - 1) 0) (\<lambda>rownnz.
     bindE (mj_stackAllocInt d (int (length edge))) (\<lambda>(d, p_colind).
     bindE (foldE (island_colind_step rowadr) edge
              (rownnz, fresh mem p_colind (int (length edge)))) (\<lambda>(rownnz, colind).
     bindE (mj_stackAllocInt d (ntree m)) (\<lambda>(d, p_tree_island).
     bindE (mj_stackAllocInt d (int (length edge))) (\<lambda>(d, p_stack).
     bindE (mj_floodFill (ntree m) rownnz rowadr colind (length edge)) (\<lambda>(tree_island, k).
     Inr (d\<lparr>nisland := int k\<rparr>, tree_island))))))))))))))"

text \<open>
  Modelled from the spec: the list \<^verbatim>\<open>MJDATA_ARENA_POINTERS_ISLAND\<close> (mjxmacro.h is not part
  of the sources at hand), in the order of the comment above \<^verbatim>\<open>mj_island\<close>, with the
  shapes \<open>island_dofadr[nisland]\<close>, \<open>dof_island[nv]\<close>, \<open>dof_islandnext[nv]\<close>,
  \<open>island_efcadr[nisland]\<close>, \<open>efc_island[nefc]\<close>, \<open>efc_islandnext[nefc]\<close>.

  The arena allocation of \<^verbatim>\<open>mj_island\<close>: one expansion of the macro \<open>X\<close> for each array.
  The result is \<open>Inr\<close> of the data when every allocation succeeds, and \<open>Inl\<close> of the data
  at the first allocation that fails (the pointer just assigned is null).
\<close>

definition island_alloc :: "mjModel \<Rightarrow> mjData \<Rightarrow> (nat \<Rightarrow> int) \<Rightarrow> mjData + mjData" where
  "island_alloc m d mem =
     (case mj_arenaAlloc d (sizeof_int * nat (nisland d) * 1) sizeof_int of
        None \<Rightarrow> Inl (d\<lparr>island_dofadr := None\<rparr>)
      | Some (d, p) \<Rightarrow>
     let d = d\<lparr>island_dofadr := Some (fresh mem p (nisland d))\<rparr> in
     (case mj_arenaAlloc d (sizeof_int * nat (nv m) * 1) sizeof_int of
        None \<Rightarrow> Inl (d\<lparr>dof_island := None\<rparr>)
      | Some (d, p) \<Rightarrow>
     let d = d\<lparr>dof_island := Some (fresh mem p (nv m))\<rparr> in
     (case mj_arenaAlloc d (sizeof_int * nat (nv m) * 1) sizeof_int of
        None \<Rightarrow> Inl (d\<lparr>dof_islandnext := None\<rparr>)
      | Some (d, p) \<Rightarrow>
     let d = d\<lparr>dof_islandnext := Some (fresh mem p (nv m))\<rparr> in
     (case mj_arenaAlloc d (sizeof_int * nat (nisland d) * 1) sizeof_int of
        None \<Rightarrow> Inl (d\<lparr>island_efcadr := None\<rparr>)
      | Some (d, p) \<Rightarrow>
     let d = d\<lparr>island_efcadr := Some (fresh mem p (nisland d))\<rparr> in
     (case mj_arenaAlloc d (sizeof_int * nat (nefc d) * 1) sizeof_int of
        None \<Rightarrow> Inl (d\<lparr>efc_island := None\<rparr>)
      | Some (d, p) \<Rightarrow>
     let d = d\<lparr>efc_island := Some (fresh mem p (nefc d))\<rparr> in
     (case mj_arenaAlloc d (sizeof_int * nat (nefc d) * 1) sizeof_int of
        None \<Rightarrow> Inl (d\<lparr>efc_islandnext := None\<rparr>)
      | Some (d, p) \<Rightarrow>
     Inr (d\<lparr>efc_islandnext := Some (fresh mem p (nefc d))\<rparr>)))))))"

text \<open>Dereferencing an arena pointer.\<close>

definition deref :: "string \<Rightarrow> 'a list option \<Rightarrow> error + 'a list" where
  "deref name p = (case p of None \<Rightarrow> Inl (OutOfBounds name) | Some xs \<Rightarrow> Inr xs)"

text \<open>
  The threading that the sweep over the DoFs and the sweep over the constraint rows share
  (the \<^verbatim>\<open>else\<close> branch of both loop bodies): element \<open>i\<close> is appended to the list of
  \<open>island\<close>.  \<open>adr\<close> is \<^verbatim>\<open>island_dofadr\<close> or \<^verbatim>\<open>island_efcadr\<close>, \<open>nxt\<close> is \<^verbatim>\<open>dof_islandnext\<close>
  or \<^verbatim>\<open>efc_islandnext\<close>.
\<close>

definition island_link ::
  "string \<Rightarrow> string \<Rightarrow> int \<Rightarrow> int \<Rightarrow> int list \<times> int list \<times> int list \<times> int \<Rightarrow>
   error + (int list \<times> int list \<times> int list \<times> int)" where
  "island_link adr_name nxt_name i island s =
     (case s of (adr, nxt, island_last, nisland_found) \<Rightarrow>
      bindE (rd ''island_last'' island_last island) (\<lambda>last.
      bindE (if last = -1
             then bindE (wr adr_name adr island i) (\<lambda>adr. Inr (adr, nxt, nisland_found + 1))
             else bindE (wr nxt_name nxt last i) (\<lambda>nxt. Inr (adr, nxt, nisland_found)))
        (\<lambda>(adr, nxt, nisland_found).
      bindE (wr ''island_last'' island_last island i) (\<lambda>island_last.
      Inr (adr, nxt, island_last, nisland_found)))))"

text \<open>The body of the sweep over the DoFs.\<close>

definition island_dof_step ::
  "mjModel \<Rightarrow> int list \<Rightarrow> int \<Rightarrow> int list \<times> int list \<times> int list \<times> int list \<times> int \<Rightarrow>
   error + (int list \<times> int list \<times> int list \<times> int list \<times> int)" where
  "island_dof_step m tree_island i s =
     (case s of (el_island, adr, nxt, island_last, nisland_found) \<Rightarrow>
      bindE (rd ''dof_treeid'' (dof_treeid m) i) (\<lambda>t.
      bindE (rd ''tree_island[dof_treeid[i]]'' tree_island t) (\<lambda>island.
      bindE (wr ''dof_island'' el_island i island) (\<lambda>el_island.
      if island = -1 then
        bindE (wr ''dof_islandnext'' nxt i (-1)) (\<lambda>nxt.
        Inr (el_island, adr, nxt, island_last, nisland_found))
      else
        bindE (island_link ''island_dofadr'' ''dof_islandnext'' i island
                 (adr, nxt, island_last, nisland_found))
          (\<lambda>(adr, nxt, island_last, nisland_found).
        Inr (el_island, adr, nxt, island_last, nisland_found))))))"

text \<open>The body of the sweep over the constraint rows.\<close>

definition island_efc_step ::
  "mjModel \<Rightarrow> mjData \<Rightarrow> int list \<Rightarrow> int \<Rightarrow>
   int list \<times> int list \<times> int list \<times> int list \<times> int \<Rightarrow>
   error + (int list \<times> int list \<times> int list \<times> int list \<times> int)" where
  "island_efc_step m d tree_island i s =
     (case s of (el_island, adr, nxt, island_last, nisland_found) \<Rightarrow>
      bindE (treeNext m d (-1) i None) (\<lambda>(t, j).
      bindE (rd ''tree_island[treeNext]'' tree_island t) (\<lambda>island.
      bindE (wr ''efc_island'' el_island i island) (\<lambda>el_island.
      if island = -1 then Inl (ConstraintNotInIsland i)
      else
        bindE (island_link ''island_efcadr'' ''efc_islandnext'' i island
                 (adr, nxt, island_last, nisland_found))
          (\<lambda>(adr, nxt, island_last, nisland_found).
        Inr (el_island, adr, nxt, island_last, nisland_found))))))"

text \<open>The body of the loops that mark the last element of every island with \<open>-1\<close>.\<close>

definition island_finalize_step :: "string \<Rightarrow> int list \<Rightarrow> int \<Rightarrow> int list \<Rightarrow> error + int list"
  where
  "island_finalize_step nxt_name island_last i nxt =
     bindE (rd ''island_last'' island_last i) (\<lambda>last. wr nxt_name nxt last (-1))"

text \<open>
  The last part of \<^verbatim>\<open>mj_island\<close>, after the arena allocation.  The two loops that set
  \<^verbatim>\<open>island_last[i] = -1\<close> for \<open>i < nisland\<close> are written as \<open>replicate\<close>.
\<close>

definition island_populate :: "mjModel \<Rightarrow> mjData \<Rightarrow> int list \<Rightarrow> error + mjData" where
  "island_populate m d tree_island =
     bindE (mj_stackAllocInt d (nisland d)) (\<lambda>(d, p_island_last).
     bindE (deref ''dof_island'' (dof_island d)) (\<lambda>el_island.
     bindE (deref ''island_dofadr'' (island_dofadr d)) (\<lambda>adr.
     bindE (deref ''dof_islandnext'' (dof_islandnext d)) (\<lambda>nxt.
     bindE (for_loop 0 (nv m) (island_dof_step m tree_island)
              (el_island, adr, nxt, replicate (nat (nisland d)) (-1), 0))
       (\<lambda>(el_island, adr, nxt, island_last, nisland_found).
     if nisland_found \<noteq> nisland d then Inl IslandsNotAssignedDofs
     else
     bindE (for_loop 0 (nisland d) (island_finalize_step ''dof_islandnext'' island_last) nxt)
       (\<lambda>nxt.
     let d = d\<lparr>dof_island := Some el_island, island_dofadr := Some adr,
                dof_islandnext := Some nxt\<rparr> in
     bindE (deref ''efc_island'' (efc_island d)) (\<lambda>el_island.
     bindE (deref ''island_efcadr'' (island_efcadr d)) (\<lambda>adr.
     bindE (deref ''efc_islandnext'' (efc_islandnext d)) (\<lambda>nxt.
     bindE (for_loop 0 (nefc d) (island_efc_step m d tree_island)
              (el_island, adr, nxt, replicate (nat (nisland d)) (-1), 0))
       (\<lambda>(el_island, adr, nxt, island_last, nisland_found).
     if nisland_found \<noteq> nisland d then Inl IslandsNotAssignedEfc
     else
     bindE (for_loop 0 (nisland d) (island_finalize_step ''efc_islandnext'' island_last) nxt)
       (\<lambda>nxt.
     Inr (d\<lparr>efc_island := Some el_island, island_efcadr := Some adr,
            efc_islandnext := Some nxt\<rparr>))))))))))))"

text \<open>
  \<^verbatim>\<open>mj_island\<close>.  \<^verbatim>\<open>mjMARKSTACK\<close> saves \<open>pstack\<close> and \<^verbatim>\<open>mjFREESTACK\<close> restores it.  An
  \<open>Inl\<close> result is a fatal error (the step is aborted); \<open>Inr\<close> is the data on return.
\<close>

definition mj_island :: "mjModel \<Rightarrow> mjData \<Rightarrow> (nat \<Rightarrow> int) \<Rightarrow> error + mjData" where
  "mj_island m d mem =
     (if nefc d = 0 then Inr (d\<lparr>nisland := 0\<rparr>)
      else
        let mark = pstack d in
        bindE (island_discover m d mem) (\<lambda>(d, tree_island).
        let parena_old = parena d in
        case island_alloc m d mem of
          Inl d \<Rightarrow>
            Inr ((clearIsland (mj_warning d mjWARN_CNSTRFULL (nstack d * sizeof_mjtNum))
                    parena_old)\<lparr>pstack := mark\<rparr>)
        | Inr d \<Rightarrow>
            bindE (island_populate m d tree_island) (\<lambda>d.
            Inr (d\<lparr>pstack := mark\<rparr>))))"

subsection \<open>Scenarios\<close>

text \<open>
  Concrete inputs.  \<open>friction_model\<close> has one kinematic tree with two DoFs;
  \<open>friction_data\<close> has one constraint row, the friction loss of DoF 0, whose Jacobian row is
  \<open>(1, 0)\<close> (given in dense and in sparse form).  \<open>mem0\<close> is a buffer of zeros.
\<close>

definition mem0 :: "nat \<Rightarrow> int" where "mem0 p = 0"

definition friction_model :: mjModel where
  "friction_model = \<lparr>nv = 2, ntree = 1, ntendon = 0, is_sparse = False,
     dof_treeid = [0, 0], body_treeid = [-1, 0], geom_bodyid = [], jnt_dofadr = [0, 1],
     eq_type = [], eq_obj1id = [], eq_obj2id = [], tendon_frictionloss = [],
     tendon_limited = [], tendon_num = []\<rparr>"

definition friction_data :: mjData where
  "friction_data = \<lparr>nstack = 100, pstack = 0, parena = 0, nefc = 1, ncon = 0, ne = 0, nf = 1,
     efc_type = [mjCNSTR_FRICTION_DOF], efc_id = [0], efc_J_rownnz = [1], efc_J_rowadr = [0],
     efc_J_colind = [0], efc_J = [1, 0], contact = [], nisland = 0, island_dofadr = None,
     dof_island = None, dof_islandnext = None, island_efcadr = None, efc_island = None,
     efc_islandnext = None, warnings = []\<rparr>"

text \<open>
  One hinge joint at its limit and nothing else: one tree with one DoF, one constraint row
  of type \<^verbatim>\<open>mjCNSTR_LIMIT_JOINT\<close>, no contact, equality, friction loss or tendon.
\<close>

definition joint_limit_model :: mjModel where
  "joint_limit_model = friction_model\<lparr>nv := 1, dof_treeid := [0], jnt_dofadr := [0]\<rparr>"

definition joint_limit_data :: mjData where
  "joint_limit_data = friction_data\<lparr>nf := 0, efc_type := [mjCNSTR_LIMIT_JOINT], efc_J := [1]\<rparr>"

text \<open>
  Three trees: DoFs 0 and 1 in tree 0, DoF 2 in tree 1, DoF 3 in tree 2.  Two constraint
  rows: the friction loss of DoF 0, with Jacobian row \<open>(1, 0, 0, 0)\<close>, and the limit of a
  tendon that spans DoFs 1 and 2, with Jacobian row \<open>(0, 1, 1, 0)\<close>.  Tree 2 is
  unconstrained.
\<close>

definition tendon_model :: mjModel where
  "tendon_model = \<lparr>nv = 4, ntree = 3, ntendon = 1, is_sparse = False,
     dof_treeid = [0, 0, 1, 2], body_treeid = [-1, 0, 1, 2], geom_bodyid = [],
     jnt_dofadr = [0, 1, 2, 3], eq_type = [], eq_obj1id = [], eq_obj2id = [],
     tendon_frictionloss = [0], tendon_limited = [1], tendon_num = [2]\<rparr>"

definition tendon_data :: mjData where
  "tendon_data = \<lparr>nstack = 100, pstack = 0, parena = 0, nefc = 2, ncon = 0, ne = 0, nf = 1,
     efc_type = [mjCNSTR_FRICTION_DOF, mjCNSTR_LIMIT_TENDON], efc_id = [0, 0],
     efc_J_rownnz = [1, 2], efc_J_rowadr = [0, 1], efc_J_colind = [0, 1, 2],
     efc_J = [1, 0, 0, 0, 0, 1, 1, 0], contact = [], nisland = 0, island_dofadr = None,
     dof_island = None, dof_islandnext = None, island_efcadr = None, efc_island = None,
     efc_islandnext = None, warnings = []\<rparr>"

text \<open>What \<^verbatim>\<open>mj_island\<close> returns for it: one island, of DoFs 0, 1, 2 and of both rows.\<close>

definition tendon_result :: mjData where
  "tendon_result = tendon_data\<lparr>parena := 56, nisland := 1, island_dofadr := Some [0],
     dof_island := Some [0, 0, 0, -1], dof_islandnext := Some [1, 2, -1, -1],
     island_efcadr := Some [0], efc_island := Some [0, 0],
     efc_islandnext := Some [1, -1]\<rparr>"

text \<open>DoF \<open>j\<close> has a nonzero in row \<open>i\<close> of the Jacobian; DoF \<open>j\<close> appears in no row.\<close>

definition dof_in_row :: "mjModel \<Rightarrow> mjData \<Rightarrow> int \<Rightarrow> int \<Rightarrow> bool" where
  "dof_in_row m d i j =
     (if is_sparse m
      then j \<in> set (take (nat (efc_J_rownnz d ! nat i))
                      (drop (nat (efc_J_rowadr d ! nat i)) (efc_J_colind d)))
      else efc_J d ! nat (nv m * i + j) \<noteq> 0)"

definition dof_in_no_row :: "mjModel \<Rightarrow> mjData \<Rightarrow> int \<Rightarrow> bool" where
  "dof_in_no_row m d j = list_all (\<lambda>i. \<not> dof_in_row m d (int i) j) [0..<nat (nefc d)]"

section \<open>Auxiliary notions\<close>

subsection \<open>Following the per-island lists\<close>

text \<open>
  Following the links \<open>nxt\<close> from element \<open>j\<close> until the sentinel \<open>-1\<close>, for at most
  \<open>fuel\<close> steps: the elements visited, or \<open>None\<close> when an index is out of range or the
  fuel runs out before the sentinel.
\<close>

fun walk :: "int list \<Rightarrow> nat \<Rightarrow> int \<Rightarrow> int list option" where
  "walk nxt 0 j = (if j = -1 then Some [] else None)"
| "walk nxt (Suc fuel) j =
     (if j = -1 then Some []
      else if 0 \<le> j \<and> j < int (length nxt)
      then map_option ((#) j) (walk nxt fuel (nxt ! nat j))
      else None)"

text \<open>
  The invariant of the sweeps that thread the lists, after \<open>i\<close> of the \<open>n\<close> elements, for
  \<open>K\<close> islands: \<open>el\<close> is \<^verbatim>\<open>dof_island\<close> (\<^verbatim>\<open>efc_island\<close>), \<open>adr\<close> the first element of every
  island, \<open>lst\<close> is \<^verbatim>\<open>island_last\<close>, \<open>cnt\<close> is \<^verbatim>\<open>nisland_found\<close>.  \<open>thread_final\<close> is what
  holds of the arrays at the end.
\<close>

definition thread_inv ::
  "nat \<Rightarrow> nat \<Rightarrow> nat \<Rightarrow> int list \<times> int list \<times> int list \<times> int list \<times> int \<Rightarrow> bool" where
  "thread_inv n K i s = (case s of (el, adr, nxt, lst, cnt) \<Rightarrow>
     length el = n \<and> length nxt = n \<and> length adr = K \<and> length lst = K \<and> i \<le> n \<and>
     (\<forall>j<i. el ! j = -1 \<or> (0 \<le> el ! j \<and> el ! j < int K)) \<and>
     (\<forall>j<i. el ! j = -1 \<longrightarrow> nxt ! j = -1) \<and>
     (\<forall>k<K. (\<forall>j<i. el ! j \<noteq> int k) \<longrightarrow> lst ! k = -1) \<and>
     (\<forall>k<K. (\<exists>j<i. el ! j = int k) \<longrightarrow>
        (\<exists>l<i. lst ! k = int l \<and> el ! l = int k \<and> (\<forall>x. l < x \<and> x < i \<longrightarrow> el ! x \<noteq> int k))) \<and>
     (\<forall>k<K. (\<exists>j<i. el ! j = int k) \<longrightarrow>
        (\<exists>f<i. adr ! k = int f \<and> el ! f = int k \<and> (\<forall>x<f. el ! x \<noteq> int k))) \<and>
     (\<forall>j j'. j < j' \<and> j' < i \<and> el ! j = el ! j' \<and> el ! j \<noteq> -1 \<and>
        (\<forall>x. j < x \<and> x < j' \<longrightarrow> el ! x \<noteq> el ! j) \<longrightarrow> nxt ! j = int j') \<and>
     cnt = int (card {k. k < K \<and> (\<exists>j<i. el ! j = int k)}))"

definition thread_final :: "nat \<Rightarrow> nat \<Rightarrow> int list \<Rightarrow> int list \<Rightarrow> int list \<Rightarrow> bool" where
  "thread_final n K el adr nxt \<longleftrightarrow>
     length el = n \<and> length nxt = n \<and> length adr = K \<and>
     (\<forall>j<n. el ! j = -1 \<or> (0 \<le> el ! j \<and> el ! j < int K)) \<and>
     (\<forall>j<n. el ! j = -1 \<longrightarrow> nxt ! j = -1) \<and>
     (\<forall>k<K. \<exists>f<n. adr ! k = int f \<and> el ! f = int k \<and> (\<forall>x<f. el ! x \<noteq> int k)) \<and>
     (\<forall>j j'. j < j' \<and> j' < n \<and> el ! j = el ! j' \<and> el ! j \<noteq> -1 \<and>
        (\<forall>x. j < x \<and> x < j' \<longrightarrow> el ! x \<noteq> el ! j) \<longrightarrow> nxt ! j = int j') \<and>
     (\<forall>j<n. el ! j \<noteq> -1 \<and> (\<forall>x. j < x \<and> x < n \<longrightarrow> el ! x \<noteq> el ! j) \<longrightarrow> nxt ! j = -1)"

text \<open>The data \<open>d'\<close> has the inputs of \<open>d\<close>.\<close>

definition same_inputs :: "mjData \<Rightarrow> mjData \<Rightarrow> bool" where
  "same_inputs d d' \<longleftrightarrow>
     nstack d' = nstack d \<and> nefc d' = nefc d \<and> ncon d' = ncon d \<and> ne d' = ne d \<and>
     nf d' = nf d \<and> efc_type d' = efc_type d \<and> efc_id d' = efc_id d \<and>
     efc_J_rownnz d' = efc_J_rownnz d \<and> efc_J_rowadr d' = efc_J_rowadr d \<and>
     efc_J_colind d' = efc_J_colind d \<and> efc_J d' = efc_J d \<and> contact d' = contact d \<and>
     warnings d' = warnings d"

section \<open>Properties\<close>

subsection \<open>The edge budget\<close>

text \<open>
  C1.  The claim: the number of edge records that \<^verbatim>\<open>findEdges\<close> emits never exceeds the
  budget of \<^verbatim>\<open>countMaxEdge\<close>, which covers every constraint family of the collector,
  joint limits included.  The budget counts contacts, equalities, joint friction and
  tendons, but nothing for joint limits, for which \<^verbatim>\<open>findEdges\<close> emits a self-edge: for a
  single joint at its limit the budget is 0 and \<^verbatim>\<open>addEdge\<close> reaches
  \<^verbatim>\<open>mjERROR("edge array too small")\<close>.
\<close>

theorem countMaxEdge_misses_joint_limit:
  "countMaxEdge joint_limit_model joint_limit_data = Inr 0 \<and>
   findEdges joint_limit_model joint_limit_data 0 = Inl EdgeArrayTooSmall \<and>
   mj_island joint_limit_model joint_limit_data mem0 = Inl EdgeArrayTooSmall"
  by code_simp

subsection \<open>The cursor of treeNext\<close>

lemma treeNext_sparse_skip:
  "treeNext_sparse m d tree adr rownnz j0 = Inr (t, j) \<Longrightarrow>
   (t \<noteq> -1 \<longrightarrow> t \<noteq> tree) \<and>
   (\<forall>p. j0 \<le> p \<and> p < j \<longrightarrow> p < rownnz \<and>
      (\<exists>c. rd ''efc_J_colind'' (efc_J_colind d) (adr + p) = Inr c \<and>
           rd ''dof_treeid'' (dof_treeid m) c = Inr tree))"
proof (induction m d tree adr rownnz j0 rule: treeNext_sparse.induct)
  case (1 m d tree adr rownnz j0)
  show ?case
  proof (cases "j0 < rownnz")
    case False
    with "1.prems" show ?thesis
      by (auto simp: treeNext_sparse.simps[of m d tree adr rownnz j0])
  next
    case True
    from "1.prems" True obtain c tree_j where
      c: "rd ''efc_J_colind'' (efc_J_colind d) (adr + j0) = Inr c" and
      tj: "rd ''dof_treeid'' (dof_treeid m) c = Inr tree_j" and
      rest: "(if tree_j \<noteq> tree then Inr (tree_j, j0)
              else treeNext_sparse m d tree adr rownnz (j0 + 1)) = Inr (t, j)"
      by (auto simp: treeNext_sparse.simps[of m d tree adr rownnz j0] bindE_Inr_iff)
    show ?thesis
    proof (cases "tree_j \<noteq> tree")
      case True
      with rest show ?thesis by auto
    next
      case False
      with rest have r: "treeNext_sparse m d tree adr rownnz (j0 + 1) = Inr (t, j)" by simp
      have "p = j0 \<or> j0 + 1 \<le> p" if "j0 \<le> p" for p using that by linarith
      with "1.IH"[OF True c tj _ r] False c tj True show ?thesis by auto
    qed
  qed
qed

lemma treeNext_dense_skip:
  "treeNext_dense m d tree i n j0 = Inr (t, j) \<Longrightarrow>
   (t \<noteq> -1 \<longrightarrow> t \<noteq> tree) \<and>
   (\<forall>p. j0 \<le> p \<and> p < j \<longrightarrow> p < n \<and>
      (\<exists>x. rd ''efc_J'' (efc_J d) (n * i + p) = Inr x \<and>
           (x = 0 \<or> rd ''dof_treeid'' (dof_treeid m) p = Inr tree)))"
proof (induction m d tree i n j0 rule: treeNext_dense.induct)
  case (1 m d tree i n j0)
  show ?case
  proof (cases "j0 < n")
    case False
    with "1.prems" show ?thesis
      by (auto simp: treeNext_dense.simps[of m d tree i n j0])
  next
    case True
    have step: "p = j0 \<or> j0 + 1 \<le> p" if "j0 \<le> p" for p using that by linarith
    from "1.prems" True obtain x where
      x: "rd ''efc_J'' (efc_J d) (n * i + j0) = Inr x" and
      rest: "(if x \<noteq> 0 then
               bindE (rd ''dof_treeid'' (dof_treeid m) j0) (\<lambda>tree_j.
                 if tree_j \<noteq> tree then Inr (tree_j, j0)
                 else treeNext_dense m d tree i n (j0 + 1))
              else treeNext_dense m d tree i n (j0 + 1)) = Inr (t, j)"
      by (auto simp: treeNext_dense.simps[of m d tree i n j0] bindE_Inr_iff)
    show ?thesis
    proof (cases "x \<noteq> 0")
      case False
      with rest have r: "treeNext_dense m d tree i n (j0 + 1) = Inr (t, j)" by simp
      from "1.IH"(2)[OF True x False r] False x True step show ?thesis by auto
    next
      case nz: True
      with rest obtain tree_j where
        tj: "rd ''dof_treeid'' (dof_treeid m) j0 = Inr tree_j" and
        rest': "(if tree_j \<noteq> tree then Inr (tree_j, j0)
                 else treeNext_dense m d tree i n (j0 + 1)) = Inr (t, j)"
        by (auto simp: bindE_Inr_iff)
      show ?thesis
      proof (cases "tree_j \<noteq> tree")
        case True
        with rest' show ?thesis by auto
      next
        case False
        with rest' have r: "treeNext_dense m d tree i n (j0 + 1) = Inr (t, j)" by simp
        from "1.IH"(1)[OF True x nz tj _ r] False x tj True step show ?thesis by auto
      qed
    qed
  qed
qed

lemma treeNext_skipped:
  assumes "treeNext m d tree i (Some j0) = Inr (t, j)"
  shows "t \<noteq> -1 \<Longrightarrow> t \<noteq> tree"
    and "j0 \<le> p \<Longrightarrow> p < j \<Longrightarrow> entry_tree m d i p = None \<or> entry_tree m d i p = Some tree"
proof -
  have "(t \<noteq> -1 \<longrightarrow> t \<noteq> tree) \<and>
        (j0 \<le> p \<and> p < j \<longrightarrow> entry_tree m d i p = None \<or> entry_tree m d i p = Some tree)"
  proof (cases "is_sparse m")
    case True
    from treeNext_sparse_unfold[OF True assms] obtain rownnz adr where
      r: "rd ''efc_J_rownnz'' (efc_J_rownnz d) i = Inr rownnz" and
      a: "rd ''efc_J_rowadr'' (efc_J_rowadr d) i = Inr adr" and
      s: "treeNext_sparse m d tree adr rownnz j0 = Inr (t, j)"
      by blast
    from treeNext_sparse_skip[OF s] show ?thesis
      unfolding entry_tree_sparse[OF True r a] by blast
  next
    case False
    from treeNext_dense_unfold[OF False assms]
    have s: "treeNext_dense m d tree i (nv m) j0 = Inr (t, j)" .
    have "entry_tree m d i p = None" if "rd ''efc_J'' (efc_J d) (nv m * i + p) = Inr 0"
      using that False by (simp add: entry_tree_def)
    with treeNext_dense_skip[OF s] show ?thesis
      unfolding entry_tree_dense[OF False] by blast
  qed
  then show "t \<noteq> -1 \<Longrightarrow> t \<noteq> tree"
    and "j0 \<le> p \<Longrightarrow> p < j \<Longrightarrow> entry_tree m d i p = None \<or> entry_tree m d i p = Some tree"
    by blast+
qed

text \<open>
  C6, as claimed: when \<^verbatim>\<open>treeNext\<close> finds a tree, the cursor is left one past the entry
  found.  It is not: in row 0 of \<open>friction_data\<close> the only nonzero is at position 0, and the
  scan from 0 returns tree 0 with the cursor at 0, in sparse and in dense form.
\<close>

theorem treeNext_cursor_not_past_entry:
  "treeNext (friction_model\<lparr>is_sparse := True\<rparr>) friction_data (-1) 0 (Some 0) = Inr (0, 0) \<and>
   entry_tree (friction_model\<lparr>is_sparse := True\<rparr>) friction_data 0 0 = Some 0 \<and>
   treeNext friction_model friction_data (-1) 0 (Some 0) = Inr (0, 0) \<and>
   entry_tree friction_model friction_data 0 0 = Some 0"
  by code_simp

text \<open>
  C6, amended: when \<^verbatim>\<open>treeNext\<close>, called with a cursor at \<open>j0\<close>, returns a tree \<open>t \<noteq> -1\<close>,
  the cursor is left at the position \<open>j \<ge> j0\<close> of the entry found (not past it): the
  entry at \<open>j\<close> is an incidence of tree \<open>t\<close>, \<open>t\<close> differs from the input tree, and every
  position from \<open>j0\<close> up to \<open>j\<close> is no incidence or an incidence of the input tree.
\<close>

theorem treeNext_cursor_at_entry:
  assumes "treeNext m d tree i (Some j0) = Inr (t, j)" and "t \<noteq> -1"
  shows "j0 \<le> j \<and> entry_tree m d i j = Some t \<and> t \<noteq> tree \<and>
         (\<forall>p. j0 \<le> p \<and> p < j \<longrightarrow>
            entry_tree m d i p = None \<or> entry_tree m d i p = Some tree)"
  using treeNext_cursor(1,2)[OF assms(1)] treeNext_skipped[OF assms(1)] assms(2) by blast

theorem treeNext_cursor_at_entry_witness:
  "treeNext tendon_model tendon_data 0 1 (Some 0) = Inr (1, 2) \<and>
   entry_tree tendon_model tendon_data 1 2 = Some 1 \<and>
   entry_tree tendon_model tendon_data 1 0 = None \<and>
   entry_tree tendon_model tendon_data 1 1 = Some 0"
proof -
  have h: "treeNext tendon_model tendon_data 0 1 (Some 0) = Inr (1, 2)" by code_simp
  have n: "(1::int) \<noteq> -1" by simp
  have e: "entry_tree tendon_model tendon_data 1 0 \<noteq> Some 0"
    "entry_tree tendon_model tendon_data 1 1 \<noteq> None" by code_simp+
  from treeNext_cursor_at_entry[OF h n] have
    "entry_tree tendon_model tendon_data 1 2 = Some 1"
    "entry_tree tendon_model tendon_data 1 0 = None \<or>
     entry_tree tendon_model tendon_data 1 0 = Some 0"
    "entry_tree tendon_model tendon_data 1 1 = None \<or>
     entry_tree tendon_model tendon_data 1 1 = Some 0"
    by simp_all
  with h e show ?thesis by auto
qed

subsection \<open>Allocation failure and the empty case\<close>

lemma mj_stackAllocInt_frame:
  "mj_stackAllocInt d sz = Inr (d', p) \<Longrightarrow> \<exists>ps. d' = d\<lparr>pstack := ps\<rparr>"
  by (auto simp: mj_stackAllocInt_def Let_def split: if_splits)

lemma mj_arenaAlloc_frame:
  "mj_arenaAlloc d bytes al = Some (d', p) \<Longrightarrow> \<exists>pa. d' = d\<lparr>parena := pa\<rparr>"
  by (auto simp: mj_arenaAlloc_def Let_def split: if_splits)

lemma island_discover_frame:
  assumes "island_discover m d mem = Inr (d1, tree_island)"
  shows "\<exists>ps k. d1 = d\<lparr>pstack := ps, nisland := k\<rparr>"
proof -
  from assms obtain da db dc dd de df k p1 p2 p3 p4 p5 p6 where
    a: "mj_stackAllocInt d p1 = Inr (da, p2)" and
    b: "mj_stackAllocInt da (ntree m) = Inr (db, p3)" and
    c: "mj_stackAllocInt db (ntree m) = Inr (dc, p4)" and
    e: "mj_stackAllocInt dc p5 = Inr (dd, p6)" and
    f: "\<exists>p. mj_stackAllocInt dd (ntree m) = Inr (de, p)" and
    g: "\<exists>p. mj_stackAllocInt de p5 = Inr (df, p)" and
    h: "d1 = df\<lparr>nisland := k\<rparr>"
    by (auto simp: island_discover_def bindE_Inr_iff)
  from a b c e f g h have "\<exists>ps. d1 = d\<lparr>pstack := ps, nisland := k\<rparr>"
    by (auto dest!: mj_stackAllocInt_frame)
  then show ?thesis by blast
qed

lemma island_alloc_fail_frame:
  assumes "island_alloc m d mem = Inl dF"
  shows "warnings dF = warnings d \<and> nstack dF = nstack d \<and> pstack dF = pstack d"
  using assms unfolding island_alloc_def Let_def
  by (auto split: option.splits dest!: mj_arenaAlloc_frame)

text \<open>
  C7.  When \<^verbatim>\<open>mj_island\<close> reaches the arena allocation (\<open>island_discover\<close> returned \<open>d1\<close>)
  and one of the allocations fails, it returns with all six island pointers null,
  \<open>nefc = 0\<close>, \<open>nisland = 0\<close>, the arena watermark \<open>parena\<close> at its value on entry to the
  allocation (which is its value at the call), and the log of warnings extended by exactly
  one \<^verbatim>\<open>mjWARN_CNSTRFULL\<close> carrying the byte size of the buffer.
\<close>

theorem mj_island_alloc_failure:
  assumes "nefc d \<noteq> 0"
    and "island_discover m d mem = Inr (d1, tree_island)"
    and "island_alloc m d1 mem = Inl dF"
  shows "\<exists>d'. mj_island m d mem = Inr d' \<and>
           island_dofadr d' = None \<and> dof_island d' = None \<and> dof_islandnext d' = None \<and>
           island_efcadr d' = None \<and> efc_island d' = None \<and> efc_islandnext d' = None \<and>
           nefc d' = 0 \<and> nisland d' = 0 \<and>
           parena d' = parena d1 \<and> parena d1 = parena d \<and>
           warnings d' = warnings d @ [(mjWARN_CNSTRFULL, nstack d * sizeof_mjtNum)]"
proof -
  from island_discover_frame[OF assms(2)] obtain ps k where
    d1: "d1 = d\<lparr>pstack := ps, nisland := k\<rparr>" by blast
  from island_alloc_fail_frame[OF assms(3)] d1 have
    f: "warnings dF = warnings d" "nstack dF = nstack d" by simp_all
  from assms have "mj_island m d mem =
      Inr ((clearIsland (mj_warning dF mjWARN_CNSTRFULL (nstack dF * sizeof_mjtNum))
              (parena d1))\<lparr>pstack := pstack d\<rparr>)"
    by (simp add: mj_island_def Let_def)
  with f d1 show ?thesis
    by (simp add: clearIsland_def mj_warning_def)
qed

theorem mj_island_alloc_failure_witness:
  "nefc (friction_data\<lparr>nstack := 6\<rparr>) \<noteq> 0 \<and>
   island_discover friction_model (friction_data\<lparr>nstack := 6\<rparr>) mem0 =
     Inr (friction_data\<lparr>nstack := 6, pstack := 6, nisland := 1\<rparr>, [0]) \<and>
   island_alloc friction_model (friction_data\<lparr>nstack := 6, pstack := 6, nisland := 1\<rparr>) mem0 =
     Inl (friction_data\<lparr>nstack := 6, pstack := 6, nisland := 1\<rparr>) \<and>
   (\<exists>d'. mj_island friction_model (friction_data\<lparr>nstack := 6\<rparr>) mem0 = Inr d' \<and>
      island_dofadr d' = None \<and> dof_island d' = None \<and> dof_islandnext d' = None \<and>
      island_efcadr d' = None \<and> efc_island d' = None \<and> efc_islandnext d' = None \<and>
      nefc d' = 0 \<and> nisland d' = 0 \<and>
      parena d' = parena (friction_data\<lparr>nstack := 6, pstack := 6, nisland := 1\<rparr>) \<and>
      parena (friction_data\<lparr>nstack := 6, pstack := 6, nisland := 1\<rparr>) =
        parena (friction_data\<lparr>nstack := 6\<rparr>) \<and>
      warnings d' = warnings (friction_data\<lparr>nstack := 6\<rparr>) @
        [(mjWARN_CNSTRFULL, nstack (friction_data\<lparr>nstack := 6\<rparr>) * sizeof_mjtNum)])"
proof -
  have h1: "nefc (friction_data\<lparr>nstack := 6\<rparr>) \<noteq> 0" by code_simp
  have h2: "island_discover friction_model (friction_data\<lparr>nstack := 6\<rparr>) mem0 =
     Inr (friction_data\<lparr>nstack := 6, pstack := 6, nisland := 1\<rparr>, [0])" by code_simp
  have h3: "island_alloc friction_model
       (friction_data\<lparr>nstack := 6, pstack := 6, nisland := 1\<rparr>) mem0 =
     Inl (friction_data\<lparr>nstack := 6, pstack := 6, nisland := 1\<rparr>)" by code_simp
  from mj_island_alloc_failure[OF h1 h2 h3] h1 h2 h3 show ?thesis by blast
qed

text \<open>
  C8.  With \<open>nefc = 0\<close>, \<^verbatim>\<open>mj_island\<close> returns the data it was given with \<open>nisland\<close> set to 0
  and nothing else changed: no allocation (\<open>pstack\<close> and \<open>parena\<close> are as before), the island
  pointers as they were.
\<close>

theorem mj_island_no_constraints:
  "nefc d = 0 \<Longrightarrow> mj_island m d mem = Inr (d\<lparr>nisland := 0\<rparr>)"
  by (simp add: mj_island_def)

theorem mj_island_no_constraints_witness:
  "nefc (friction_data\<lparr>nefc := 0\<rparr>) = 0 \<and>
   mj_island friction_model (friction_data\<lparr>nefc := 0\<rparr>) mem0 =
     Inr (friction_data\<lparr>nefc := 0, nisland := 0\<rparr>)"
proof -
  have h: "nefc (friction_data\<lparr>nefc := 0\<rparr>) = 0" by simp
  from mj_island_no_constraints[OF h, of friction_model mem0] h show ?thesis by simp
qed

subsection \<open>Loops, and the threading of the lists\<close>

lemma foldE_append: "foldE f (xs @ ys) s = bindE (foldE f xs s) (foldE f ys)"
  by (induction xs arbitrary: s) (auto simp: bindE_def split: sum.splits)

lemma foldE_upt_inv:
  assumes "foldE (\<lambda>i. body (int i)) [lo..<k] s0 = Inr s" and "lo \<le> k" and "I lo s0"
    and "\<And>i s s'. lo \<le> i \<Longrightarrow> i < k \<Longrightarrow> I i s \<Longrightarrow> body (int i) s = Inr s' \<Longrightarrow> I (Suc i) s'"
  shows "I k s"
  using assms
proof (induction k arbitrary: s)
  case 0
  then show ?case by simp
next
  case (Suc k)
  show ?case
  proof (cases "lo = Suc k")
    case True
    with Suc.prems show ?thesis by simp
  next
    case False
    with Suc.prems(2) have le: "lo \<le> k" by simp
    with Suc.prems(1) obtain s1 where
      s1: "foldE (\<lambda>i. body (int i)) [lo..<k] s0 = Inr s1" and b: "body (int k) s1 = Inr s"
      by (auto simp: foldE_append bindE_Inr_iff)
    have "I k s1"
      by (rule Suc.IH[OF s1 le Suc.prems(3)]) (use Suc.prems(4) in auto)
    from Suc.prems(4)[OF le _ this b] show ?thesis by simp
  qed
qed

lemma for_loop_inv:
  assumes "for_loop lo n body s0 = Inr s" and "lo \<le> nat n" and "I lo s0"
    and "\<And>i s s'. lo \<le> i \<Longrightarrow> i < nat n \<Longrightarrow> I i s \<Longrightarrow> body (int i) s = Inr s' \<Longrightarrow> I (Suc i) s'"
  shows "I (nat n) s"
  using assms unfolding for_loop_def by (rule foldE_upt_inv)

lemma foldE_upt_total:
  assumes "lo \<le> k" and "I lo s0"
    and "\<And>i s. lo \<le> i \<Longrightarrow> i < k \<Longrightarrow> I i s \<Longrightarrow> \<exists>s'. body (int i) s = Inr s' \<and> I (Suc i) s'"
  shows "\<exists>s. foldE (\<lambda>i. body (int i)) [lo..<k] s0 = Inr s \<and> I k s"
  using assms
proof (induction k)
  case 0
  then show ?case by simp
next
  case (Suc k)
  show ?case
  proof (cases "lo = Suc k")
    case True
    with Suc.prems show ?thesis by simp
  next
    case False
    with Suc.prems(1) have le: "lo \<le> k" by simp
    have "\<exists>s. foldE (\<lambda>i. body (int i)) [lo..<k] s0 = Inr s \<and> I k s"
      by (rule Suc.IH[OF le Suc.prems(2)]) (use Suc.prems(3) in auto)
    then obtain s1 where s1: "foldE (\<lambda>i. body (int i)) [lo..<k] s0 = Inr s1" "I k s1" by blast
    from Suc.prems(3)[OF le _ s1(2)] obtain s' where "body (int k) s1 = Inr s'" "I (Suc k) s'"
      by auto
    with s1 le show ?thesis by (auto simp: foldE_append)
  qed
qed

lemma for_loop_total:
  assumes "lo \<le> nat n" and "I lo s0"
    and "\<And>i s. lo \<le> i \<Longrightarrow> i < nat n \<Longrightarrow> I i s \<Longrightarrow> \<exists>s'. body (int i) s = Inr s' \<and> I (Suc i) s'"
  shows "\<exists>s. for_loop lo n body s0 = Inr s \<and> I (nat n) s"
  using assms unfolding for_loop_def by (rule foldE_upt_total)

lemma rd_Inr_iff: "rd name xs i = Inr x \<longleftrightarrow> 0 \<le> i \<and> nat i < length xs \<and> x = xs ! nat i"
  by (auto simp: rd_def)

lemma wr_Inr_iff: "wr name xs i v = Inr ys \<longleftrightarrow> 0 \<le> i \<and> nat i < length xs \<and> ys = xs[nat i := v]"
  by (auto simp: wr_def)

lemma thread_inv_init:
  "length el = n \<Longrightarrow> length nxt = n \<Longrightarrow> length adr = K \<Longrightarrow>
   thread_inv n K 0 (el, adr, nxt, replicate K (-1), 0)"
  by (simp add: thread_inv_def)

lemma thread_invD:
  assumes "thread_inv n K i (el, adr, nxt, lst, cnt)"
  shows "length el = n" "length nxt = n" "length adr = K" "length lst = K" "i \<le> n"
    and "\<And>j. j < i \<Longrightarrow> el ! j = -1 \<or> (0 \<le> el ! j \<and> el ! j < int K)"
    and "\<And>j. j < i \<Longrightarrow> el ! j = -1 \<Longrightarrow> nxt ! j = -1"
    and "\<And>k. k < K \<Longrightarrow> (\<forall>j<i. el ! j \<noteq> int k) \<Longrightarrow> lst ! k = -1"
    and "\<And>k j. k < K \<Longrightarrow> j < i \<Longrightarrow> el ! j = int k \<Longrightarrow>
        \<exists>l<i. lst ! k = int l \<and> el ! l = int k \<and> (\<forall>x. l < x \<and> x < i \<longrightarrow> el ! x \<noteq> int k)"
    and "\<And>k j. k < K \<Longrightarrow> j < i \<Longrightarrow> el ! j = int k \<Longrightarrow>
        \<exists>f<i. adr ! k = int f \<and> el ! f = int k \<and> (\<forall>x<f. el ! x \<noteq> int k)"
    and "\<And>j j'. j < j' \<Longrightarrow> j' < i \<Longrightarrow> el ! j = el ! j' \<Longrightarrow> el ! j \<noteq> -1 \<Longrightarrow>
        (\<forall>x. j < x \<and> x < j' \<longrightarrow> el ! x \<noteq> el ! j) \<Longrightarrow> nxt ! j = int j'"
    and "cnt = int (card {k. k < K \<and> (\<exists>j<i. el ! j = int k)})"
proof -
  from assms have
    a: "length el = n \<and> length nxt = n \<and> length adr = K \<and> length lst = K \<and> i \<le> n" and
    b: "\<forall>j<i. el ! j = -1 \<or> (0 \<le> el ! j \<and> el ! j < int K)" and
    c: "\<forall>j<i. el ! j = -1 \<longrightarrow> nxt ! j = -1" and
    d: "\<forall>k<K. (\<forall>j<i. el ! j \<noteq> int k) \<longrightarrow> lst ! k = -1" and
    e: "\<forall>k<K. (\<exists>j<i. el ! j = int k) \<longrightarrow>
        (\<exists>l<i. lst ! k = int l \<and> el ! l = int k \<and> (\<forall>x. l < x \<and> x < i \<longrightarrow> el ! x \<noteq> int k))" and
    f: "\<forall>k<K. (\<exists>j<i. el ! j = int k) \<longrightarrow>
        (\<exists>f<i. adr ! k = int f \<and> el ! f = int k \<and> (\<forall>x<f. el ! x \<noteq> int k))" and
    g: "\<forall>j j'. j < j' \<and> j' < i \<and> el ! j = el ! j' \<and> el ! j \<noteq> -1 \<and>
        (\<forall>x. j < x \<and> x < j' \<longrightarrow> el ! x \<noteq> el ! j) \<longrightarrow> nxt ! j = int j'" and
    h: "cnt = int (card {k. k < K \<and> (\<exists>j<i. el ! j = int k)})"
    unfolding thread_inv_def prod.case by blast+
  from a show "length el = n" "length nxt = n" "length adr = K" "length lst = K" "i \<le> n"
    by simp_all
  from b show "\<And>j. j < i \<Longrightarrow> el ! j = -1 \<or> (0 \<le> el ! j \<and> el ! j < int K)" by blast
  from c show "\<And>j. j < i \<Longrightarrow> el ! j = -1 \<Longrightarrow> nxt ! j = -1" by blast
  from d show "\<And>k. k < K \<Longrightarrow> (\<forall>j<i. el ! j \<noteq> int k) \<Longrightarrow> lst ! k = -1" by blast
  from e show "\<And>k j. k < K \<Longrightarrow> j < i \<Longrightarrow> el ! j = int k \<Longrightarrow>
        \<exists>l<i. lst ! k = int l \<and> el ! l = int k \<and> (\<forall>x. l < x \<and> x < i \<longrightarrow> el ! x \<noteq> int k)"
    by blast
  from f show "\<And>k j. k < K \<Longrightarrow> j < i \<Longrightarrow> el ! j = int k \<Longrightarrow>
        \<exists>f<i. adr ! k = int f \<and> el ! f = int k \<and> (\<forall>x<f. el ! x \<noteq> int k)"
    by blast
  from g show "\<And>j j'. j < j' \<Longrightarrow> j' < i \<Longrightarrow> el ! j = el ! j' \<Longrightarrow> el ! j \<noteq> -1 \<Longrightarrow>
        (\<forall>x. j < x \<and> x < j' \<longrightarrow> el ! x \<noteq> el ! j) \<Longrightarrow> nxt ! j = int j'" by blast
  from h show "cnt = int (card {k. k < K \<and> (\<exists>j<i. el ! j = int k)})" .
qed

lemma thread_invI:
  assumes "length el = n" "length nxt = n" "length adr = K" "length lst = K" "i \<le> n"
    and "\<And>j. j < i \<Longrightarrow> el ! j = -1 \<or> (0 \<le> el ! j \<and> el ! j < int K)"
    and "\<And>j. j < i \<Longrightarrow> el ! j = -1 \<Longrightarrow> nxt ! j = -1"
    and "\<And>k. k < K \<Longrightarrow> (\<forall>j<i. el ! j \<noteq> int k) \<Longrightarrow> lst ! k = -1"
    and "\<And>k j. k < K \<Longrightarrow> j < i \<Longrightarrow> el ! j = int k \<Longrightarrow>
        \<exists>l<i. lst ! k = int l \<and> el ! l = int k \<and> (\<forall>x. l < x \<and> x < i \<longrightarrow> el ! x \<noteq> int k)"
    and "\<And>k j. k < K \<Longrightarrow> j < i \<Longrightarrow> el ! j = int k \<Longrightarrow>
        \<exists>f<i. adr ! k = int f \<and> el ! f = int k \<and> (\<forall>x<f. el ! x \<noteq> int k)"
    and "\<And>j j'. j < j' \<Longrightarrow> j' < i \<Longrightarrow> el ! j = el ! j' \<Longrightarrow> el ! j \<noteq> -1 \<Longrightarrow>
        (\<forall>x. j < x \<and> x < j' \<longrightarrow> el ! x \<noteq> el ! j) \<Longrightarrow> nxt ! j = int j'"
    and "cnt = int (card {k. k < K \<and> (\<exists>j<i. el ! j = int k)})"
  shows "thread_inv n K i (el, adr, nxt, lst, cnt)"
  unfolding thread_inv_def prod.case
proof (intro conjI)
  show "\<forall>j<i. el ! j = -1 \<or> (0 \<le> el ! j \<and> el ! j < int K)" using assms(6) by blast
  show "\<forall>j<i. el ! j = -1 \<longrightarrow> nxt ! j = -1" using assms(7) by blast
  show "\<forall>k<K. (\<forall>j<i. el ! j \<noteq> int k) \<longrightarrow> lst ! k = -1" using assms(8) by blast
  show "\<forall>k<K. (\<exists>j<i. el ! j = int k) \<longrightarrow>
        (\<exists>l<i. lst ! k = int l \<and> el ! l = int k \<and> (\<forall>x. l < x \<and> x < i \<longrightarrow> el ! x \<noteq> int k))"
    using assms(9) by blast
  show "\<forall>k<K. (\<exists>j<i. el ! j = int k) \<longrightarrow>
        (\<exists>f<i. adr ! k = int f \<and> el ! f = int k \<and> (\<forall>x<f. el ! x \<noteq> int k))"
    using assms(10) by blast
  show "\<forall>j j'. j < j' \<and> j' < i \<and> el ! j = el ! j' \<and> el ! j \<noteq> -1 \<and>
        (\<forall>x. j < x \<and> x < j' \<longrightarrow> el ! x \<noteq> el ! j) \<longrightarrow> nxt ! j = int j'"
    using assms(11) by blast
qed (use assms in simp_all)

lemma thread_inv_skip:
  assumes inv: "thread_inv n K i (el, adr, nxt, lst, cnt)" and i: "i < n"
  shows "thread_inv n K (Suc i) (el[i := -1], adr, nxt[i := -1], lst, cnt)"
proof -
  let ?el = "el[i := -1]"
  let ?nxt = "nxt[i := -1]"
  note I = thread_invD[OF inv]
  have old: "?el ! j = el ! j" "?nxt ! j = nxt ! j" if "j < i" for j using that by simp_all
  have new: "?el ! i = -1" "?nxt ! i = -1" using i I(1,2) by simp_all
  have lt: "j < i" if "j < Suc i" "?el ! j \<noteq> -1" for j
    using that new by (cases "j = i") auto
  show ?thesis
  proof (rule thread_invI)
    show "length ?el = n" "length ?nxt = n" "length adr = K" "length lst = K" "Suc i \<le> n"
      using I(1-4) i by simp_all
  next
    fix j assume "j < Suc i"
    then show "?el ! j = -1 \<or> (0 \<le> ?el ! j \<and> ?el ! j < int K)"
      using I(6)[of j] old(1)[of j] new by (cases "j = i") auto
  next
    fix j assume "j < Suc i" "?el ! j = -1"
    then show "?nxt ! j = -1"
      using I(7)[of j] old[of j] new by (cases "j = i") auto
  next
    fix k assume k: "k < K" "\<forall>j<Suc i. ?el ! j \<noteq> int k"
    have "\<forall>j<i. el ! j \<noteq> int k"
    proof (intro allI impI)
      fix j assume ji: "j < i"
      then have "j < Suc i" by simp
      with k(2) have "?el ! j \<noteq> int k" by blast
      with old(1)[OF ji] show "el ! j \<noteq> int k" by simp
    qed
    with I(8)[OF k(1)] show "lst ! k = -1" by simp
  next
    fix k j assume k: "k < K" and j: "j < Suc i" "?el ! j = int k"
    with lt[of j] have ji: "j < i" by simp
    with j old have "el ! j = int k" by simp
    from I(9)[OF k ji this] obtain l where l: "l < i" "lst ! k = int l" "el ! l = int k"
      "\<forall>x. l < x \<and> x < i \<longrightarrow> el ! x \<noteq> int k" by blast
    have "\<forall>x. l < x \<and> x < Suc i \<longrightarrow> ?el ! x \<noteq> int k"
    proof (intro allI impI)
      fix x assume "l < x \<and> x < Suc i"
      then show "?el ! x \<noteq> int k" using l(4) old(1)[of x] new by (cases "x = i") auto
    qed
    with l old(1)[of l] show "\<exists>l<Suc i. lst ! k = int l \<and> ?el ! l = int k \<and>
           (\<forall>x. l < x \<and> x < Suc i \<longrightarrow> ?el ! x \<noteq> int k)"
      by (intro exI[of _ l]) simp
  next
    fix k j assume k: "k < K" and j: "j < Suc i" "?el ! j = int k"
    with lt[of j] have ji: "j < i" by simp
    with j old have "el ! j = int k" by simp
    from I(10)[OF k ji this] obtain f where f: "f < i" "adr ! k = int f" "el ! f = int k"
      "\<forall>x<f. el ! x \<noteq> int k" by blast
    have "\<forall>x<f. ?el ! x \<noteq> int k" using f(1,4) old(1) by auto
    with f old(1)[of f] show "\<exists>f<Suc i. adr ! k = int f \<and> ?el ! f = int k \<and> (\<forall>x<f. ?el ! x \<noteq> int k)"
      by (intro exI[of _ f]) simp
  next
    fix j j' assume h: "j < j'" "j' < Suc i" "?el ! j = ?el ! j'" "?el ! j \<noteq> -1"
      "\<forall>x. j < x \<and> x < j' \<longrightarrow> ?el ! x \<noteq> ?el ! j"
    from h lt[of j'] have j': "j' < i" by simp
    with h have j: "j < i" by simp
    have "\<forall>x. j < x \<and> x < j' \<longrightarrow> el ! x \<noteq> el ! j"
      using h(5) j j' old(1) by auto
    with I(11)[of j j'] h j j' old(1)[of j] old(1)[of j'] have "nxt ! j = int j'" by auto
    with j old show "?nxt ! j = int j'" by simp
  next
    have "(\<exists>j<Suc i. ?el ! j = int k) \<longleftrightarrow> (\<exists>j<i. el ! j = int k)" for k
      using old(1) new by (auto simp: less_Suc_eq)
    with I(12) show "cnt = int (card {k. k < K \<and> (\<exists>j<Suc i. ?el ! j = int k)})" by simp
  qed
qed

lemma island_link_Inr_iff:
  "island_link an nn i v (adr, nxt, lst, cnt) = Inr (adr', nxt', lst', cnt') \<longleftrightarrow>
   0 \<le> v \<and> nat v < length lst \<and> lst' = lst[nat v := i] \<and>
   (if lst ! nat v = -1
    then nat v < length adr \<and> adr' = adr[nat v := i] \<and> nxt' = nxt \<and> cnt' = cnt + 1
    else 0 \<le> lst ! nat v \<and> nat (lst ! nat v) < length nxt \<and>
         nxt' = nxt[nat (lst ! nat v) := i] \<and> adr' = adr \<and> cnt' = cnt)"
  by (auto simp: island_link_def bindE_Inr_iff rd_Inr_iff wr_Inr_iff)

lemma thread_inv_first:
  assumes inv: "thread_inv n K i (el, adr, nxt, lst, cnt)" and i: "i < n"
    and k0: "k0 < K" and fresh: "lst ! k0 = -1"
  shows "thread_inv n K (Suc i)
           (el[i := int k0], adr[k0 := int i], nxt, lst[k0 := int i], cnt + 1)"
proof -
  let ?el = "el[i := int k0]"
  let ?adr = "adr[k0 := int i]"
  let ?lst = "lst[k0 := int i]"
  note I = thread_invD[OF inv]
  have old: "?el ! j = el ! j" if "j < i" for j using that by simp
  have new: "?el ! i = int k0" using i I(1) by simp
  have none: "el ! j \<noteq> int k0" if "j < i" for j
  proof
    assume "el ! j = int k0"
    from I(9)[OF k0 that this] fresh show False by auto
  qed
  have lt: "j < i" if "j < Suc i" "?el ! j \<noteq> int k0" for j
    using that new by (cases "j = i") auto
  have lstk: "?lst ! k = lst ! k" "?adr ! k = adr ! k" if "k \<noteq> k0" for k using that by simp_all
  have lstk0: "?lst ! k0 = int i" "?adr ! k0 = int i" using k0 I(3,4) by simp_all
  show ?thesis
  proof (rule thread_invI)
    show "length ?el = n" "length nxt = n" "length ?adr = K" "length ?lst = K" "Suc i \<le> n"
      using I(1-4) i by simp_all
  next
    fix j assume "j < Suc i"
    then show "?el ! j = -1 \<or> (0 \<le> ?el ! j \<and> ?el ! j < int K)"
      using I(6)[of j] old[of j] new k0 by (cases "j = i") auto
  next
    fix j assume j: "j < Suc i" "?el ! j = -1"
    with lt[of j] have ji: "j < i" by simp
    with j old[of j] I(7)[of j] show "nxt ! j = -1" by simp
  next
    fix k assume k: "k < K" "\<forall>j<Suc i. ?el ! j \<noteq> int k"
    from k(2) new have kk: "k \<noteq> k0" by auto
    have "\<forall>j<i. el ! j \<noteq> int k"
    proof (intro allI impI)
      fix j assume ji: "j < i"
      then have "j < Suc i" by simp
      with k(2) have "?el ! j \<noteq> int k" by blast
      with old[OF ji] show "el ! j \<noteq> int k" by simp
    qed
    with I(8)[OF k(1)] lstk(1)[OF kk] show "?lst ! k = -1" by simp
  next
    fix k j assume k: "k < K" and j: "j < Suc i" "?el ! j = int k"
    show "\<exists>l<Suc i. ?lst ! k = int l \<and> ?el ! l = int k \<and>
           (\<forall>x. l < x \<and> x < Suc i \<longrightarrow> ?el ! x \<noteq> int k)"
    proof (cases "k = k0")
      case True
      with lstk0 new show ?thesis by (intro exI[of _ i]) auto
    next
      case False
      with j lt[of j] have ji: "j < i" by simp
      with j old have "el ! j = int k" by simp
      from I(9)[OF k ji this] obtain l where l: "l < i" "lst ! k = int l" "el ! l = int k"
        "\<forall>x. l < x \<and> x < i \<longrightarrow> el ! x \<noteq> int k" by blast
      have "\<forall>x. l < x \<and> x < Suc i \<longrightarrow> ?el ! x \<noteq> int k"
      proof (intro allI impI)
        fix x assume "l < x \<and> x < Suc i"
        then show "?el ! x \<noteq> int k" using l(4) old[of x] new False by (cases "x = i") auto
      qed
      with l old[of l] lstk(1)[OF False] show ?thesis
        by (intro exI[of _ l]) simp
    qed
  next
    fix k j assume k: "k < K" and j: "j < Suc i" "?el ! j = int k"
    show "\<exists>f<Suc i. ?adr ! k = int f \<and> ?el ! f = int k \<and> (\<forall>x<f. ?el ! x \<noteq> int k)"
    proof (cases "k = k0")
      case True
      have "\<forall>x<i. ?el ! x \<noteq> int k" using none old True by auto
      with True lstk0 new show ?thesis by (intro exI[of _ i]) auto
    next
      case False
      with j lt[of j] have ji: "j < i" by simp
      with j old have "el ! j = int k" by simp
      from I(10)[OF k ji this] obtain f where f: "f < i" "adr ! k = int f" "el ! f = int k"
        "\<forall>x<f. el ! x \<noteq> int k" by blast
      have "\<forall>x<f. ?el ! x \<noteq> int k" using f(1,4) old by auto
      with f old[of f] lstk(2)[OF False] show ?thesis
        by (intro exI[of _ f]) simp
    qed
  next
    fix j j' assume h: "j < j'" "j' < Suc i" "?el ! j = ?el ! j'" "?el ! j \<noteq> -1"
      "\<forall>x. j < x \<and> x < j' \<longrightarrow> ?el ! x \<noteq> ?el ! j"
    have j': "j' < i"
    proof (rule ccontr)
      assume "\<not> j' < i"
      with h(2) have "j' = i" by simp
      with h(1,3) new old[of j] none[of j] show False by simp
    qed
    with h have j: "j < i" by simp
    have "\<forall>x. j < x \<and> x < j' \<longrightarrow> el ! x \<noteq> el ! j"
      using h(5) j j' old by auto
    with I(11)[of j j'] h j j' old[of j] old[of j'] show "nxt ! j = int j'" by auto
  next
    have "{k. k < K \<and> (\<exists>j<Suc i. ?el ! j = int k)} =
          insert k0 {k. k < K \<and> (\<exists>j<i. el ! j = int k)}" (is "?A = insert k0 ?B")
    proof (intro set_eqI iffI)
      fix k assume "k \<in> ?A"
      then obtain j where kj: "k < K" "j < Suc i" "?el ! j = int k" by blast
      show "k \<in> insert k0 ?B"
      proof (cases "j = i")
        case True with kj new show ?thesis by simp
      next
        case False
        with kj have "j < i" by simp
        with kj old[of j] show ?thesis by auto
      qed
    next
      fix k assume "k \<in> insert k0 ?B"
      then consider "k = k0" | "k \<in> ?B" by blast
      then show "k \<in> ?A"
      proof cases
        case 1 with k0 new show ?thesis by auto
      next
        case 2
        then obtain j where "k < K" "j < i" "el ! j = int k" by blast
        with old[of j] show ?thesis by (auto intro!: exI[of _ j])
      qed
    qed
    moreover have "k0 \<notin> ?B" using none by auto
    moreover have "finite ?B" by simp
    ultimately have "card ?A = Suc (card ?B)" by simp
    with I(12) show "cnt + 1 = int (card ?A)" by simp
  qed
qed

lemma thread_inv_append:
  assumes inv: "thread_inv n K i (el, adr, nxt, lst, cnt)" and i: "i < n"
    and k0: "k0 < K" and used: "lst ! k0 \<noteq> -1"
  shows "0 \<le> lst ! k0 \<and> nat (lst ! k0) < n \<and>
         thread_inv n K (Suc i)
           (el[i := int k0], adr, nxt[nat (lst ! k0) := int i], lst[k0 := int i], cnt)"
proof -
  note I = thread_invD[OF inv]
  from I(8)[OF k0] used obtain j0 where j0: "j0 < i" "el ! j0 = int k0" by blast
  from I(9)[OF k0 j0] obtain l where l: "l < i" "lst ! k0 = int l" "el ! l = int k0"
    "\<forall>x. l < x \<and> x < i \<longrightarrow> el ! x \<noteq> int k0" by blast
  let ?el = "el[i := int k0]"
  let ?nxt = "nxt[l := int i]"
  let ?lst = "lst[k0 := int i]"
  have old: "?el ! j = el ! j" if "j < i" for j using that by simp
  have new: "?el ! i = int k0" using i I(1) by simp
  have lt: "j < i" if "j < Suc i" "?el ! j \<noteq> int k0" for j
    using that new by (cases "j = i") auto
  have lstk: "?lst ! k = lst ! k" if "k \<noteq> k0" for k using that by simp
  have lstk0: "?lst ! k0 = int i" using k0 I(4) by simp
  have nxto: "?nxt ! j = nxt ! j" if "j \<noteq> l" for j using that by simp
  have nxtl: "?nxt ! l = int i" using l(1) i I(2) by simp
  have inv': "thread_inv n K (Suc i) (?el, adr, ?nxt, ?lst, cnt)"
  proof (rule thread_invI)
    show "length ?el = n" "length ?nxt = n" "length adr = K" "length ?lst = K" "Suc i \<le> n"
      using I(1-4) i by simp_all
  next
    fix j assume "j < Suc i"
    then show "?el ! j = -1 \<or> (0 \<le> ?el ! j \<and> ?el ! j < int K)"
      using I(6)[of j] old[of j] new k0 by (cases "j = i") auto
  next
    fix j assume j: "j < Suc i" "?el ! j = -1"
    with lt[of j] have ji: "j < i" by simp
    with j old[of j] l(3) have "j \<noteq> l" by auto
    with ji j old[of j] I(7)[of j] nxto[of j] show "?nxt ! j = -1" by simp
  next
    fix k assume k: "k < K" "\<forall>j<Suc i. ?el ! j \<noteq> int k"
    from k(2) new have kk: "k \<noteq> k0" by auto
    have "\<forall>j<i. el ! j \<noteq> int k"
    proof (intro allI impI)
      fix j assume ji: "j < i"
      then have "j < Suc i" by simp
      with k(2) have "?el ! j \<noteq> int k" by blast
      with old[OF ji] show "el ! j \<noteq> int k" by simp
    qed
    with I(8)[OF k(1)] lstk[OF kk] show "?lst ! k = -1" by simp
  next
    fix k j assume k: "k < K" and j: "j < Suc i" "?el ! j = int k"
    show "\<exists>l<Suc i. ?lst ! k = int l \<and> ?el ! l = int k \<and>
           (\<forall>x. l < x \<and> x < Suc i \<longrightarrow> ?el ! x \<noteq> int k)"
    proof (cases "k = k0")
      case True
      with lstk0 new show ?thesis by (intro exI[of _ i]) auto
    next
      case False
      with j lt[of j] have ji: "j < i" by simp
      with j old have "el ! j = int k" by simp
      from I(9)[OF k ji this] obtain l' where l': "l' < i" "lst ! k = int l'" "el ! l' = int k"
        "\<forall>x. l' < x \<and> x < i \<longrightarrow> el ! x \<noteq> int k" by blast
      have "\<forall>x. l' < x \<and> x < Suc i \<longrightarrow> ?el ! x \<noteq> int k"
      proof (intro allI impI)
        fix x assume "l' < x \<and> x < Suc i"
        then show "?el ! x \<noteq> int k" using l'(4) old[of x] new False by (cases "x = i") auto
      qed
      with l' old[of l'] lstk[OF False] show ?thesis
        by (intro exI[of _ l']) simp
    qed
  next
    fix k j assume k: "k < K" and j: "j < Suc i" "?el ! j = int k"
    have "\<exists>j<i. el ! j = int k"
    proof (cases "k = k0")
      case True with j0 show ?thesis by blast
    next
      case False
      with j lt[of j] have ji: "j < i" by simp
      with j old show ?thesis by auto
    qed
    then obtain j1 where "j1 < i" "el ! j1 = int k" by blast
    from I(10)[OF k this] obtain f where f: "f < i" "adr ! k = int f" "el ! f = int k"
      "\<forall>x<f. el ! x \<noteq> int k" by blast
    have "\<forall>x<f. ?el ! x \<noteq> int k" using f(1,4) old by auto
    with f old[of f] show "\<exists>f<Suc i. adr ! k = int f \<and> ?el ! f = int k \<and> (\<forall>x<f. ?el ! x \<noteq> int k)"
      by (intro exI[of _ f]) simp
  next
    fix j j' assume h: "j < j'" "j' < Suc i" "?el ! j = ?el ! j'" "?el ! j \<noteq> -1"
      "\<forall>x. j < x \<and> x < j' \<longrightarrow> ?el ! x \<noteq> ?el ! j"
    from h have ji: "j < i" by simp
    show "?nxt ! j = int j'"
    proof (cases "j' = i")
      case True
      with h(3) new old[OF ji] have ej: "el ! j = int k0" by simp
      have "\<not> l < j" using l(4) ej ji by blast
      moreover have "\<not> j < l"
      proof
        assume "j < l"
        with h(5) True l(1) have "?el ! l \<noteq> ?el ! j" by blast
        with old[OF l(1)] old[OF ji] l(3) ej show False by simp
      qed
      ultimately have "j = l" by simp
      with nxtl True show ?thesis by simp
    next
      case False
      with h(2) have j': "j' < i" by simp
      have nb: "\<forall>x. j < x \<and> x < j' \<longrightarrow> el ! x \<noteq> el ! j"
        using h(5) ji j' old by auto
      from h(3,4) old[OF ji] old[OF j'] have e: "el ! j = el ! j'" "el ! j \<noteq> -1" by simp_all
      from I(11)[OF h(1) j' e nb] have n: "nxt ! j = int j'" .
      have "j \<noteq> l"
      proof
        assume "j = l"
        with l(3,4) h(1) j' e show False by auto
      qed
      with n nxto show ?thesis by simp
    qed
  next
    have "{k. k < K \<and> (\<exists>j<Suc i. ?el ! j = int k)} = {k. k < K \<and> (\<exists>j<i. el ! j = int k)}"
      (is "?A = ?B")
    proof (intro set_eqI iffI)
      fix k assume "k \<in> ?A"
      then obtain j where kj: "k < K" "j < Suc i" "?el ! j = int k" by blast
      show "k \<in> ?B"
      proof (cases "j = i")
        case True with kj new j0 show ?thesis by auto
      next
        case False
        with kj have "j < i" by simp
        with kj old[of j] show ?thesis by auto
      qed
    next
      fix k assume "k \<in> ?B"
      then obtain j where "k < K" "j < i" "el ! j = int k" by blast
      with old[of j] show "k \<in> ?A" by (auto intro!: exI[of _ j])
    qed
    with I(12) show "cnt = int (card ?A)" by simp
  qed
  from l(1,2) i inv' show ?thesis by simp
qed

lemma thread_inv_link:
  assumes inv: "thread_inv n K i (el, adr, nxt, lst, cnt)" and i: "i < n"
    and link: "island_link an nn (int i) v (adr, nxt, lst, cnt) = Inr (adr', nxt', lst', cnt')"
  shows "0 \<le> v \<and> v < int K \<and> thread_inv n K (Suc i) (el[i := v], adr', nxt', lst', cnt')"
proof -
  note I = thread_invD[OF inv]
  from link[unfolded island_link_Inr_iff] I(4) have v: "0 \<le> v" "nat v < K" by simp_all
  then obtain k0 where k0: "v = int k0" "k0 < K" "nat v = k0"
    by (metis nat_0_le)
  show ?thesis
  proof (cases "lst ! k0 = -1")
    case True
    with link[unfolded island_link_Inr_iff] k0 have
      "adr' = adr[k0 := int i]" "nxt' = nxt" "lst' = lst[k0 := int i]" "cnt' = cnt + 1"
      by simp_all
    with thread_inv_first[OF inv i k0(2) True] k0 show ?thesis by simp
  next
    case False
    with link[unfolded island_link_Inr_iff] k0 have
      "adr' = adr" "nxt' = nxt[nat (lst ! k0) := int i]" "lst' = lst[k0 := int i]"
      "cnt' = cnt"
      by simp_all
    with thread_inv_append[OF inv i k0(2) False] k0 show ?thesis by simp
  qed
qed

lemma island_link_total:
  assumes inv: "thread_inv n K i (el, adr, nxt, lst, cnt)" and i: "i < n"
    and v: "0 \<le> v" "v < int K"
  shows "\<exists>s'. island_link an nn (int i) v (adr, nxt, lst, cnt) = Inr s'"
proof -
  note I = thread_invD[OF inv]
  from v obtain k0 where k0: "v = int k0" "k0 < K" "nat v = k0"
    by (metis nat_0_le nat_less_iff)
  show ?thesis
  proof (cases "lst ! k0 = -1")
    case True
    with k0 I(3,4) show ?thesis
      by (simp add: island_link_def rd_def wr_def)
  next
    case False
    from thread_inv_append[OF inv i k0(2) False] have "0 \<le> lst ! k0" "nat (lst ! k0) < n"
      by simp_all
    then have "lst ! k0 < int n" by linarith
    with \<open>0 \<le> lst ! k0\<close> I(2) k0 I(3,4) False show ?thesis
      by (simp add: island_link_def rd_def wr_def)
  qed
qed

lemma thread_finalD:
  assumes "thread_final n K el adr nxt"
  shows "length el = n" "length nxt = n" "length adr = K"
    and "\<And>j. j < n \<Longrightarrow> el ! j = -1 \<or> (0 \<le> el ! j \<and> el ! j < int K)"
    and "\<And>j. j < n \<Longrightarrow> el ! j = -1 \<Longrightarrow> nxt ! j = -1"
    and "\<And>k. k < K \<Longrightarrow> \<exists>f<n. adr ! k = int f \<and> el ! f = int k \<and> (\<forall>x<f. el ! x \<noteq> int k)"
    and "\<And>j j'. j < j' \<Longrightarrow> j' < n \<Longrightarrow> el ! j = el ! j' \<Longrightarrow> el ! j \<noteq> -1 \<Longrightarrow>
        (\<forall>x. j < x \<and> x < j' \<longrightarrow> el ! x \<noteq> el ! j) \<Longrightarrow> nxt ! j = int j'"
    and "\<And>j. j < n \<Longrightarrow> el ! j \<noteq> -1 \<Longrightarrow> (\<forall>x. j < x \<and> x < n \<longrightarrow> el ! x \<noteq> el ! j) \<Longrightarrow>
        nxt ! j = -1"
proof -
  from assms have
    a: "length el = n \<and> length nxt = n \<and> length adr = K" and
    b: "\<forall>j<n. el ! j = -1 \<or> (0 \<le> el ! j \<and> el ! j < int K)" and
    c: "\<forall>j<n. el ! j = -1 \<longrightarrow> nxt ! j = -1" and
    d: "\<forall>k<K. \<exists>f<n. adr ! k = int f \<and> el ! f = int k \<and> (\<forall>x<f. el ! x \<noteq> int k)" and
    e: "\<forall>j j'. j < j' \<and> j' < n \<and> el ! j = el ! j' \<and> el ! j \<noteq> -1 \<and>
        (\<forall>x. j < x \<and> x < j' \<longrightarrow> el ! x \<noteq> el ! j) \<longrightarrow> nxt ! j = int j'" and
    f: "\<forall>j<n. el ! j \<noteq> -1 \<and> (\<forall>x. j < x \<and> x < n \<longrightarrow> el ! x \<noteq> el ! j) \<longrightarrow> nxt ! j = -1"
    unfolding thread_final_def by blast+
  from a show "length el = n" "length nxt = n" "length adr = K" by simp_all
  from b show "\<And>j. j < n \<Longrightarrow> el ! j = -1 \<or> (0 \<le> el ! j \<and> el ! j < int K)" by blast
  from c show "\<And>j. j < n \<Longrightarrow> el ! j = -1 \<Longrightarrow> nxt ! j = -1" by blast
  from d show "\<And>k. k < K \<Longrightarrow> \<exists>f<n. adr ! k = int f \<and> el ! f = int k \<and> (\<forall>x<f. el ! x \<noteq> int k)"
    by blast
  from e show "\<And>j j'. j < j' \<Longrightarrow> j' < n \<Longrightarrow> el ! j = el ! j' \<Longrightarrow> el ! j \<noteq> -1 \<Longrightarrow>
        (\<forall>x. j < x \<and> x < j' \<longrightarrow> el ! x \<noteq> el ! j) \<Longrightarrow> nxt ! j = int j'" by blast
  from f show "\<And>j. j < n \<Longrightarrow> el ! j \<noteq> -1 \<Longrightarrow> (\<forall>x. j < x \<and> x < n \<longrightarrow> el ! x \<noteq> el ! j) \<Longrightarrow>
        nxt ! j = -1" by blast
qed

lemma filter_upt_none:
  "(\<forall>x. a \<le> x \<and> x < b \<longrightarrow> \<not> P x) \<Longrightarrow> filter P [a..<b] = []"
  by (auto simp: filter_empty_conv)

lemma filter_upt_split:
  "a \<le> c \<Longrightarrow> c \<le> b \<Longrightarrow> filter P [a..<b] = filter P [a..<c] @ filter P [c..<b]"
proof -
  assume "a \<le> c" "c \<le> b"
  then obtain k where "b = c + k" using le_Suc_ex by blast
  with upt_add_eq_append[OF \<open>a \<le> c\<close>, of k] show ?thesis by simp
qed

lemma walk_from:
  assumes fin: "thread_final n K el adr nxt"
  shows "j < n \<Longrightarrow> el ! j = int k \<Longrightarrow> n - j \<le> fuel \<Longrightarrow>
         walk nxt fuel (int j) = Some (map int (filter (\<lambda>x. el ! x = int k) [j..<n]))"
proof (induction "n - j" arbitrary: j fuel rule: less_induct)
  case less
  note F = thread_finalD[OF fin]
  note len = F(2) and F2 = F(7) and F3 = F(8)
  from less.prems obtain f where fuel: "fuel = Suc f" by (cases fuel) auto
  let ?P = "\<lambda>x. el ! x = int k"
  have hd: "filter ?P [j..<n] = j # filter ?P [Suc j..<n]"
    using less.prems(1,2) by (simp add: upt_conv_Cons)
  have ne: "el ! j \<noteq> -1" using less.prems(2) by simp
  have step: "walk nxt fuel (int j) = map_option ((#) (int j)) (walk nxt f (nxt ! j))"
    using fuel less.prems(1) len by simp
  show ?case
  proof (cases "\<exists>x. j < x \<and> x < n \<and> el ! x = int k")
    case False
    then have none: "\<forall>x. j < x \<and> x < n \<longrightarrow> el ! x \<noteq> el ! j" using less.prems(2) by auto
    from F3[OF less.prems(1) ne none] have "nxt ! j = -1" .
    moreover have "filter ?P [Suc j..<n] = []"
      using False by (intro filter_upt_none) auto
    moreover have "walk nxt f (-1) = Some []" by (cases f) simp_all
    ultimately show ?thesis using step hd by simp
  next
    case True
    define j' where "j' = (LEAST x. j < x \<and> x < n \<and> el ! x = int k)"
    from True have "j < j' \<and> j' < n \<and> el ! j' = int k"
      unfolding j'_def by (rule LeastI_ex)
    then have j': "j < j'" "j' < n" "el ! j' = int k" by simp_all
    have least: "\<not> (j < x \<and> x < n \<and> el ! x = int k)" if "x < j'" for x
      using that unfolding j'_def by (rule not_less_Least)
    have between: "\<forall>x. j < x \<and> x < j' \<longrightarrow> el ! x \<noteq> el ! j"
      using least j'(2) less.prems(2) by auto
    from F2[OF j'(1,2) _ ne between] less.prems(2) j'(3) have n: "nxt ! j = int j'" by simp
    have "filter ?P [Suc j..<n] = filter ?P [Suc j..<j'] @ filter ?P [j'..<n]"
      using j' by (intro filter_upt_split) auto
    moreover have "filter ?P [Suc j..<j'] = []"
      using least j'(2) by (intro filter_upt_none) auto
    moreover have "walk nxt f (int j') = Some (map int (filter ?P [j'..<n]))"
      using less.hyps[of j' f] j' less.prems(1,3) fuel by auto
    ultimately show ?thesis using step hd n by simp
  qed
qed

lemma walk_island:
  assumes fin: "thread_final n K el adr nxt" and k: "k < K" and fuel: "n \<le> fuel"
  shows "walk nxt fuel (adr ! k) = Some (map int (filter (\<lambda>x. el ! x = int k) [0..<n]))"
proof -
  from thread_finalD(6)[OF fin k] obtain f where f: "f < n" "adr ! k = int f" "el ! f = int k"
    "\<forall>x<f. el ! x \<noteq> int k"
    by blast
  let ?P = "\<lambda>x. el ! x = int k"
  have "filter ?P [0..<n] = filter ?P [0..<f] @ filter ?P [f..<n]"
    using f(1) by (intro filter_upt_split) auto
  moreover have "filter ?P [0..<f] = []" using f(4) by (intro filter_upt_none) auto
  moreover have "walk nxt fuel (int f) = Some (map int (filter ?P [f..<n]))"
    using walk_from[OF fin f(1,3), of fuel] fuel by simp
  ultimately show ?thesis using f(2) by simp
qed

lemma sweep_inv:
  assumes loop: "for_loop 0 nn body s0 = Inr s" and n: "n = nat nn"
    and init: "thread_inv n K 0 s0"
    and step: "\<And>i s s'. i < n \<Longrightarrow> thread_inv n K i s \<Longrightarrow> body (int i) s = Inr s' \<Longrightarrow>
        \<exists>v. L i v \<and> fst s' = (fst s)[i := v] \<and> thread_inv n K (Suc i) s'"
  shows "thread_inv n K n s \<and> (\<forall>j<n. L j (fst s ! j))"
proof -
  let ?I = "\<lambda>i s. thread_inv n K i s \<and> (\<forall>j<i. L j (fst s ! j))"
  have "?I (nat nn) s"
  proof (rule for_loop_inv[OF loop, where I = ?I])
    show "0 \<le> nat nn" by simp
    show "?I 0 s0" using init by simp
  next
    fix i s s' assume i: "i < nat nn" and I: "?I i s" and b: "body (int i) s = Inr s'"
    from step[OF _ _ b] i n I obtain v where
      v: "L i v" "fst s' = (fst s)[i := v]" "thread_inv n K (Suc i) s'" by blast
    obtain el adr nxt lst cnt where s: "s = (el, adr, nxt, lst, cnt)" by (cases s) auto
    from I s have len: "length el = n" using thread_invD(1) by blast
    have "L j (fst s' ! j)" if "j < Suc i" for j
    proof (cases "j = i")
      case True
      with v(1,2) s len i n show ?thesis by simp
    next
      case False
      with that have "j < i" by simp
      with I v(2) False show ?thesis by simp
    qed
    with v(3) show "?I (Suc i) s'" by blast
  qed
  with n show ?thesis by simp
qed

lemma island_dof_step_inv:
  assumes b: "island_dof_step m ti (int i) s = Inr s'"
    and inv: "thread_inv n K i s" and i: "i < n"
  shows "\<exists>v. (\<exists>t. rd ''dof_treeid'' (dof_treeid m) (int i) = Inr t \<and>
                 rd ''tree_island[dof_treeid[i]]'' ti t = Inr v) \<and>
            fst s' = (fst s)[i := v] \<and> thread_inv n K (Suc i) s'"
proof -
  obtain el adr nxt lst cnt where s: "s = (el, adr, nxt, lst, cnt)" by (cases s) auto
  from b[unfolded s island_dof_step_def prod.case bindE_Inr_iff] obtain t v el' where
    t: "rd ''dof_treeid'' (dof_treeid m) (int i) = Inr t" and
    v: "rd ''tree_island[dof_treeid[i]]'' ti t = Inr v" and
    w: "wr ''dof_island'' el (int i) v = Inr el'" and
    rest: "(if v = -1 then
        bindE (wr ''dof_islandnext'' nxt (int i) (-1)) (\<lambda>nxt.
        Inr (el', adr, nxt, lst, cnt))
      else
        bindE (island_link ''island_dofadr'' ''dof_islandnext'' (int i) v
                 (adr, nxt, lst, cnt))
          (\<lambda>(adr, nxt, island_last, nisland_found).
        Inr (el', adr, nxt, island_last, nisland_found))) = Inr s'"
    by blast
  from w have el': "el' = el[i := v]" by (simp add: wr_Inr_iff)
  show ?thesis
  proof (cases "v = -1")
    case True
    with rest have "s' = (el', adr, nxt[i := -1], lst, cnt)"
      by (auto simp: bindE_Inr_iff wr_Inr_iff)
    with thread_inv_skip[OF inv[unfolded s] i] el' True t v s show ?thesis by auto
  next
    case False
    with rest obtain adr' nxt' lst' cnt' where
      l: "island_link ''island_dofadr'' ''dof_islandnext'' (int i) v (adr, nxt, lst, cnt)
            = Inr (adr', nxt', lst', cnt')" and
      s': "s' = (el', adr', nxt', lst', cnt')"
      by (auto simp: bindE_Inr_iff)
    from thread_inv_link[OF inv[unfolded s] i l] el' s' t v s show ?thesis by auto
  qed
qed

lemma island_efc_step_inv:
  assumes b: "island_efc_step m d ti (int i) s = Inr s'"
    and inv: "thread_inv n K i s" and i: "i < n"
  shows "\<exists>v. (\<exists>t c. treeNext m d (-1) (int i) None = Inr (t, c) \<and>
                 rd ''tree_island[treeNext]'' ti t = Inr v \<and> v \<noteq> -1) \<and>
            fst s' = (fst s)[i := v] \<and> thread_inv n K (Suc i) s'"
proof -
  obtain el adr nxt lst cnt where s: "s = (el, adr, nxt, lst, cnt)" by (cases s) auto
  from b[unfolded s island_efc_step_def prod.case] obtain tc v el' where
    t: "treeNext m d (-1) (int i) None = Inr tc" and
    v: "rd ''tree_island[treeNext]'' ti (fst tc) = Inr v" and
    w: "wr ''efc_island'' el (int i) v = Inr el'" and
    rest: "(if v = -1 then Inl (ConstraintNotInIsland (int i))
      else
        bindE (island_link ''island_efcadr'' ''efc_islandnext'' (int i) v
                 (adr, nxt, lst, cnt))
          (\<lambda>(adr, nxt, island_last, nisland_found).
        Inr (el', adr, nxt, island_last, nisland_found))) = Inr s'"
    by (auto simp: bindE_Inr_iff)
  from w have el': "el' = el[i := v]" by (simp add: wr_Inr_iff)
  from rest have nz: "v \<noteq> -1" by (auto split: if_splits)
  with rest obtain adr' nxt' lst' cnt' where
    l: "island_link ''island_efcadr'' ''efc_islandnext'' (int i) v (adr, nxt, lst, cnt)
          = Inr (adr', nxt', lst', cnt')" and
    s': "s' = (el', adr', nxt', lst', cnt')"
    by (auto simp: bindE_Inr_iff)
  from thread_inv_link[OF inv[unfolded s] i l] el' s' t v s nz show ?thesis
    by (cases tc) auto
qed

lemma finalize_final:
  assumes inv: "thread_inv n K n (el, adr, nxt, lst, cnt)" and all: "cnt = int K"
    and loop: "for_loop 0 (int K) (island_finalize_step nn lst) nxt = Inr nxt'"
  shows "thread_final n K el adr nxt'"
proof -
  note I = thread_invD[OF inv]
  have used: "\<exists>j<n. el ! j = int k" if "k < K" for k
  proof -
    let ?A = "{k. k < K \<and> (\<exists>j<n. el ! j = int k)}"
    have "?A \<subseteq> {..<K}" by auto
    moreover from I(12) all have "card ?A = card {..<K}" by simp
    ultimately have "?A = {..<K}" by (intro card_subset_eq) auto
    with that show ?thesis by blast
  qed
  have last: "\<exists>l<n. lst ! k = int l \<and> el ! l = int k \<and> (\<forall>x. l < x \<and> x < n \<longrightarrow> el ! x \<noteq> int k)"
    if "k < K" for k
    using used[OF that] I(9)[OF that] by blast
  let ?J = "\<lambda>k nx. length nx = n \<and>
      (\<forall>j<n. nx ! j = (if \<exists>k'<k. lst ! k' = int j then -1 else nxt ! j))"
  have "?J (nat (int K)) nxt'"
  proof (rule for_loop_inv[OF loop, where I = ?J])
    show "0 \<le> nat (int K)" by simp
    show "?J 0 nxt" using I(2) by simp
  next
    fix k nx nx' assume k: "k < nat (int K)" and J: "?J k nx"
      and b: "island_finalize_step nn lst (int k) nx = Inr nx'"
    from k have kK: "k < K" by simp
    from last[OF kK] obtain l where l: "l < n" "lst ! k = int l" by blast
    from b kK I(4) l J have nx': "nx' = nx[l := -1]"
      by (auto simp: island_finalize_step_def bindE_Inr_iff rd_Inr_iff wr_Inr_iff)
    have "nx' ! j = (if \<exists>k'<Suc k. lst ! k' = int j then -1 else nxt ! j)" if "j < n" for j
    proof (cases "j = l")
      case True
      with nx' J l show ?thesis by auto
    next
      case False
      then have "(\<exists>k'<Suc k. lst ! k' = int j) \<longleftrightarrow> (\<exists>k'<k. lst ! k' = int j)"
        using l(2) by (auto simp: less_Suc_eq)
      with nx' J False that show ?thesis by simp
    qed
    with nx' J show "?J (Suc k) nx'" by simp
  qed
  then have len': "length nxt' = n"
    and nxt': "\<And>j. j < n \<Longrightarrow> nxt' ! j = (if \<exists>k'<K. lst ! k' = int j then -1 else nxt ! j)"
    by simp_all
  have islast: "(\<exists>k'<K. lst ! k' = int j) \<longleftrightarrow>
      el ! j \<noteq> -1 \<and> (\<forall>x. j < x \<and> x < n \<longrightarrow> el ! x \<noteq> el ! j)" if j: "j < n" for j
  proof
    assume "\<exists>k'<K. lst ! k' = int j"
    then obtain k' where k': "k' < K" "lst ! k' = int j" by blast
    from last[OF k'(1)] k'(2) show "el ! j \<noteq> -1 \<and> (\<forall>x. j < x \<and> x < n \<longrightarrow> el ! x \<noteq> el ! j)"
      by auto
  next
    assume h: "el ! j \<noteq> -1 \<and> (\<forall>x. j < x \<and> x < n \<longrightarrow> el ! x \<noteq> el ! j)"
    with I(6)[OF j] obtain k where k: "k < K" "el ! j = int k"
      by (metis nat_0_le nat_less_iff)
    from last[OF k(1)] obtain l where l: "l < n" "lst ! k = int l" "el ! l = int k"
      "\<forall>x. l < x \<and> x < n \<longrightarrow> el ! x \<noteq> int k" by blast
    have "\<not> l < j" using l(4) k(2) j by blast
    moreover have "\<not> j < l" using h l(1,3) k(2) by auto
    ultimately have "l = j" by simp
    with l(2) k(1) show "\<exists>k'<K. lst ! k' = int j" by blast
  qed
  show ?thesis
    unfolding thread_final_def
  proof (intro conjI allI impI)
    show "length el = n" "length nxt' = n" "length adr = K" using I(1,3) len' by simp_all
  next
    fix j assume "j < n" then show "el ! j = -1 \<or> (0 \<le> el ! j \<and> el ! j < int K)"
      using I(6) by blast
  next
    fix j assume "j < n" "el ! j = -1"
    then show "nxt' ! j = -1" using nxt'[of j] I(7)[of j] by simp
  next
    fix k assume "k < K"
    from used[OF this] obtain j where "j < n" "el ! j = int k" by blast
    from I(10)[OF \<open>k < K\<close> this]
    show "\<exists>f<n. adr ! k = int f \<and> el ! f = int k \<and> (\<forall>x<f. el ! x \<noteq> int k)" .
  next
    fix j j' assume h: "j < j' \<and> j' < n \<and> el ! j = el ! j' \<and> el ! j \<noteq> -1 \<and>
        (\<forall>x. j < x \<and> x < j' \<longrightarrow> el ! x \<noteq> el ! j)"
    then have j: "j < n" by simp
    from h I(11)[of j j'] have "nxt ! j = int j'" by blast
    moreover from h have "\<not> (\<forall>x. j < x \<and> x < n \<longrightarrow> el ! x \<noteq> el ! j)" by auto
    ultimately show "nxt' ! j = int j'" using nxt'[OF j] islast[OF j] by simp
  next
    fix j assume "j < n" "el ! j \<noteq> -1 \<and> (\<forall>x. j < x \<and> x < n \<longrightarrow> el ! x \<noteq> el ! j)"
    then show "nxt' ! j = -1" using nxt'[of j] islast[of j] by simp
  qed
qed

lemma treeNext_sparse_frame:
  "efc_J_colind d' = efc_J_colind d \<Longrightarrow>
   treeNext_sparse m d' tree adr rownnz j = treeNext_sparse m d tree adr rownnz j"
proof (induction m d tree adr rownnz j rule: treeNext_sparse.induct)
  case (1 m d tree adr rownnz j)
  show ?case
    unfolding treeNext_sparse.simps[of m d' tree adr rownnz j]
      treeNext_sparse.simps[of m d tree adr rownnz j]
    using 1 by (auto intro!: bindE_cong)
qed

lemma treeNext_dense_frame:
  "efc_J d' = efc_J d \<Longrightarrow>
   treeNext_dense m d' tree i n j = treeNext_dense m d tree i n j"
proof (induction m d tree i n j rule: treeNext_dense.induct)
  case (1 m d tree i n j)
  show ?case
    unfolding treeNext_dense.simps[of m d' tree i n j]
      treeNext_dense.simps[of m d tree i n j]
    using 1 by (auto intro!: bindE_cong)
qed

lemma treeNext_frame:
  assumes "efc_J d' = efc_J d" "efc_J_colind d' = efc_J_colind d"
    "efc_J_rownnz d' = efc_J_rownnz d" "efc_J_rowadr d' = efc_J_rowadr d"
  shows "treeNext m d' tree i index = treeNext m d tree i index"
  by (simp add: treeNext_def Let_def treeNext_sparse_frame[OF assms(2)]
      treeNext_dense_frame[OF assms(1)] assms)

lemma treeNext_same_inputs:
  "same_inputs d d' \<Longrightarrow> treeNext m d' tree i index = treeNext m d tree i index"
  by (rule treeNext_frame) (simp_all add: same_inputs_def)

lemma island_alloc_success:
  assumes "island_alloc m d mem = Inr d2"
  shows "same_inputs d d2 \<and> nisland d2 = nisland d \<and> pstack d2 = pstack d \<and>
     (\<exists>a1 a2 a3 a4 a5 a6.
        island_dofadr d2 = Some a1 \<and> dof_island d2 = Some a2 \<and> dof_islandnext d2 = Some a3 \<and>
        island_efcadr d2 = Some a4 \<and> efc_island d2 = Some a5 \<and> efc_islandnext d2 = Some a6 \<and>
        length a1 = nat (nisland d) \<and> length a2 = nat (nv m) \<and> length a3 = nat (nv m) \<and>
        length a4 = nat (nisland d) \<and> length a5 = nat (nefc d) \<and> length a6 = nat (nefc d))"
  using assms unfolding island_alloc_def Let_def
  by (auto split: option.splits dest!: mj_arenaAlloc_frame simp: fresh_def same_inputs_def)

subsection \<open>The stages of mj\_island\<close>

lemma floodFill_dfs_length:
  "floodFill_dfs rownnz rowadr colind cap k island stack = Inr island' \<Longrightarrow>
   length island' = length island"
proof (induction rownnz rowadr colind cap k island stack rule: floodFill_dfs.induct)
  case (1 rownnz rowadr colind cap k island stack)
  show ?case
  proof (cases "stack = []")
    case True
    from "1.prems" show ?thesis
      unfolding floodFill_dfs.simps[of rownnz rowadr colind cap k island stack]
      using True by simp
  next
    case False
    with "1.prems" obtain iv where
      iv: "rd ''island'' island (last stack) = Inr iv" and
      rest: "(if iv \<noteq> -1 then floodFill_dfs rownnz rowadr colind cap k island (butlast stack)
        else
          bindE (wr ''island'' island (last stack) (int k)) (\<lambda>island'.
          bindE (rd ''rowadr'' rowadr (last stack)) (\<lambda>adr.
          bindE (rd ''rownnz'' rownnz (last stack)) (\<lambda>nnz.
          bindE (slice ''colind'' colind adr nnz) (\<lambda>row.
          if length (butlast stack) + length row > cap then Inl (OutOfBounds ''stack'')
          else floodFill_dfs rownnz rowadr colind cap k island' (butlast stack @ row)))))) = Inr island'"
      by (auto simp: floodFill_dfs.simps[of rownnz rowadr colind cap k island stack]
          bindE_Inr_iff)
    show ?thesis
    proof (cases "iv \<noteq> -1")
      case True
      with rest "1.IH"(1)[OF False iv True] show ?thesis by simp
    next
      case f: False
      with rest obtain isl adr nnz row where
        w: "wr ''island'' island (last stack) (int k) = Inr isl" and
        a: "rd ''rowadr'' rowadr (last stack) = Inr adr" and
        n: "rd ''rownnz'' rownnz (last stack) = Inr nnz" and
        r: "slice ''colind'' colind adr nnz = Inr row" and
        c: "\<not> length (butlast stack) + length row > cap" and
        rec: "floodFill_dfs rownnz rowadr colind cap k isl (butlast stack @ row) = Inr island'"
        by (auto simp: bindE_Inr_iff split: if_splits)
      from "1.IH"(2)[OF False iv f w a n r c rec] w show ?thesis
        by (auto simp: wr_Inr_iff)
    qed
  qed
qed

lemma mj_floodFill_length:
  assumes "mj_floodFill nr rownnz rowadr colind cap = Inr (island, k)"
  shows "length island = nat nr"
proof -
  let ?I = "\<lambda>(i::nat) (s::int list \<times> nat). length (fst s) = nat nr"
  have "?I (nat nr) (island, k)"
  proof (rule for_loop_inv[OF assms[unfolded mj_floodFill_def], where I = ?I])
    fix i s s' assume "?I i s" and
      b: "floodFill_vertex rownnz rowadr colind cap (int i) s = Inr s'"
    then show "?I (Suc i) s'"
      by (cases s) (auto simp: floodFill_vertex_def bindE_Inr_iff
          dest: floodFill_dfs_length split: if_splits)
  qed simp_all
  then show ?thesis by simp
qed

lemma island_discover_basic:
  assumes "island_discover m d mem = Inr (d1, ti)"
  shows "\<exists>ps k. d1 = d\<lparr>pstack := ps, nisland := int k\<rparr> \<and> length ti = nat (ntree m)"
proof -
  from assms obtain da db dc dd de df k p1 p2 p3 p4 p5 p6 a b c cap where
    a: "mj_stackAllocInt d p1 = Inr (da, p2)" and
    b: "mj_stackAllocInt da (ntree m) = Inr (db, p3)" and
    c: "mj_stackAllocInt db (ntree m) = Inr (dc, p4)" and
    e: "mj_stackAllocInt dc p5 = Inr (dd, p6)" and
    f: "\<exists>p. mj_stackAllocInt dd (ntree m) = Inr (de, p)" and
    g: "\<exists>p. mj_stackAllocInt de p5 = Inr (df, p)" and
    ff: "mj_floodFill (ntree m) a b c cap = Inr (ti, k)" and
    h: "d1 = df\<lparr>nisland := int k\<rparr>"
    by (auto simp: island_discover_def bindE_Inr_iff)
  from a b c e f g h have "\<exists>ps. d1 = d\<lparr>pstack := ps, nisland := int k\<rparr>"
    by (auto dest!: mj_stackAllocInt_frame)
  with mj_floodFill_length[OF ff] show ?thesis by blast
qed

lemma island_populate_success:
  assumes pop: "island_populate m d2 ti = Inr d3"
    and K: "nisland d2 = int K"
    and arrays: "island_dofadr d2 = Some a1" "dof_island d2 = Some a2"
      "dof_islandnext d2 = Some a3" "island_efcadr d2 = Some a4" "efc_island d2 = Some a5"
      "efc_islandnext d2 = Some a6"
    and lens: "length a1 = K" "length a2 = nat (nv m)" "length a3 = nat (nv m)"
      "length a4 = K" "length a5 = nat (nefc d2)" "length a6 = nat (nefc d2)"
  shows "\<exists>el adr nxt el2 adr2 nxt2.
     dof_island d3 = Some el \<and> island_dofadr d3 = Some adr \<and> dof_islandnext d3 = Some nxt \<and>
     efc_island d3 = Some el2 \<and> island_efcadr d3 = Some adr2 \<and>
     efc_islandnext d3 = Some nxt2 \<and> nisland d3 = int K \<and> same_inputs d2 d3 \<and>
     thread_final (nat (nv m)) K el adr nxt \<and>
     (\<forall>j<nat (nv m). \<exists>t. rd ''dof_treeid'' (dof_treeid m) (int j) = Inr t \<and>
                           rd ''tree_island[dof_treeid[i]]'' ti t = Inr (el ! j)) \<and>
     thread_final (nat (nefc d2)) K el2 adr2 nxt2 \<and>
     (\<forall>j<nat (nefc d2). \<exists>t c. treeNext m d2 (-1) (int j) None = Inr (t, c) \<and>
                           rd ''tree_island[treeNext]'' ti t = Inr (el2 ! j) \<and> el2 ! j \<noteq> -1)"
proof -
  from pop[unfolded island_populate_def bindE_Inr_iff] obtain dp where
    st: "mj_stackAllocInt d2 (nisland d2) = Inr dp" and
    rest: "(case dp of (d, p_island_last) \<Rightarrow>
     bindE (deref ''dof_island'' (dof_island d)) (\<lambda>el_island.
     bindE (deref ''island_dofadr'' (island_dofadr d)) (\<lambda>adr.
     bindE (deref ''dof_islandnext'' (dof_islandnext d)) (\<lambda>nxt.
     bindE (for_loop 0 (nv m) (island_dof_step m ti)
              (el_island, adr, nxt, replicate (nat (nisland d)) (-1), 0))
       (\<lambda>(el_island, adr, nxt, island_last, nisland_found).
     if nisland_found \<noteq> nisland d then Inl IslandsNotAssignedDofs
     else
     bindE (for_loop 0 (nisland d) (island_finalize_step ''dof_islandnext'' island_last) nxt)
       (\<lambda>nxt.
     let d = d\<lparr>dof_island := Some el_island, island_dofadr := Some adr,
                dof_islandnext := Some nxt\<rparr> in
     bindE (deref ''efc_island'' (efc_island d)) (\<lambda>el_island.
     bindE (deref ''island_efcadr'' (island_efcadr d)) (\<lambda>adr.
     bindE (deref ''efc_islandnext'' (efc_islandnext d)) (\<lambda>nxt.
     bindE (for_loop 0 (nefc d) (island_efc_step m d ti)
              (el_island, adr, nxt, replicate (nat (nisland d)) (-1), 0))
       (\<lambda>(el_island, adr, nxt, island_last, nisland_found).
     if nisland_found \<noteq> nisland d then Inl IslandsNotAssignedEfc
     else
     bindE (for_loop 0 (nisland d) (island_finalize_step ''efc_islandnext'' island_last) nxt)
       (\<lambda>nxt.
     Inr (d\<lparr>efc_island := Some el_island, island_efcadr := Some adr,
            efc_islandnext := Some nxt\<rparr>)))))))))))) = Inr d3"
    by blast
  obtain dq p where dp: "dp = (dq, p)" by (cases dp) auto
  from mj_stackAllocInt_frame[OF st[unfolded dp]] obtain ps where dq: "dq = d2\<lparr>pstack := ps\<rparr>"
    by blast
  let ?n = "nat (nv m)" and ?ne = "nat (nefc d2)"
  from rest[unfolded dp prod.case] dq arrays K obtain el adr nxt0 lst cnt nxt where
    loop1: "for_loop 0 (nv m) (island_dof_step m ti) (a2, a1, a3, replicate K (-1), 0)
              = Inr (el, adr, nxt0, lst, cnt)" and
    cnt1: "cnt = int K" and
    fin1: "for_loop 0 (int K) (island_finalize_step ''dof_islandnext'' lst) nxt0 = Inr nxt" and
    rest2: "(let d = dq\<lparr>dof_island := Some el, island_dofadr := Some adr,
                dof_islandnext := Some nxt\<rparr> in
     bindE (deref ''efc_island'' (efc_island d)) (\<lambda>el_island.
     bindE (deref ''island_efcadr'' (island_efcadr d)) (\<lambda>adr.
     bindE (deref ''efc_islandnext'' (efc_islandnext d)) (\<lambda>nxt.
     bindE (for_loop 0 (nefc d) (island_efc_step m d ti)
              (el_island, adr, nxt, replicate (nat (nisland d)) (-1), 0))
       (\<lambda>(el_island, adr, nxt, island_last, nisland_found).
     if nisland_found \<noteq> nisland d then Inl IslandsNotAssignedEfc
     else
     bindE (for_loop 0 (nisland d) (island_finalize_step ''efc_islandnext'' island_last) nxt)
       (\<lambda>nxt.
     Inr (d\<lparr>efc_island := Some el_island, island_efcadr := Some adr,
            efc_islandnext := Some nxt\<rparr>))))))) = Inr d3"
    by (auto simp: bindE_Inr_iff deref_def split: if_splits)
  define dr where "dr = dq\<lparr>dof_island := Some el, island_dofadr := Some adr,
                dof_islandnext := Some nxt\<rparr>"
  from rest2[folded dr_def, unfolded Let_def] dr_def dq arrays K
  obtain el2 adr2 nxt20 lst2 cnt2 nxt2 where
    loop2: "for_loop 0 (nefc d2) (island_efc_step m dr ti) (a5, a4, a6, replicate K (-1), 0)
              = Inr (el2, adr2, nxt20, lst2, cnt2)" and
    cnt2: "cnt2 = int K" and
    fin2: "for_loop 0 (int K) (island_finalize_step ''efc_islandnext'' lst2) nxt20 = Inr nxt2"
    and d3: "d3 = dr\<lparr>efc_island := Some el2, island_efcadr := Some adr2,
            efc_islandnext := Some nxt2\<rparr>"
    by (auto simp: bindE_Inr_iff deref_def split: if_splits)
  have si: "same_inputs d2 dr" "same_inputs d2 d3"
    using dr_def dq d3 by (simp_all add: same_inputs_def)
  have s1: "thread_inv ?n K ?n (el, adr, nxt0, lst, cnt) \<and>
      (\<forall>j<?n. \<exists>t. rd ''dof_treeid'' (dof_treeid m) (int j) = Inr t \<and>
          rd ''tree_island[dof_treeid[i]]'' ti t = Inr (fst (el, adr, nxt0, lst, cnt) ! j))"
    by (rule sweep_inv[OF loop1 refl thread_inv_init[OF lens(2,3,1)]])
       (rule island_dof_step_inv)
  have s2: "thread_inv ?ne K ?ne (el2, adr2, nxt20, lst2, cnt2) \<and>
      (\<forall>j<?ne. \<exists>t c. treeNext m dr (-1) (int j) None = Inr (t, c) \<and>
          rd ''tree_island[treeNext]'' ti t = Inr (fst (el2, adr2, nxt20, lst2, cnt2) ! j) \<and>
          fst (el2, adr2, nxt20, lst2, cnt2) ! j \<noteq> -1)"
    by (rule sweep_inv[OF loop2 refl thread_inv_init[OF lens(5,6,4)]])
       (rule island_efc_step_inv)
  from s1 cnt1 fin1 have f1: "thread_final ?n K el adr nxt" by (blast intro: finalize_final)
  from s2 cnt2 fin2 have f2: "thread_final ?ne K el2 adr2 nxt2" by (blast intro: finalize_final)
  from d3 dr_def dq K have fields:
    "dof_island d3 = Some el" "island_dofadr d3 = Some adr" "dof_islandnext d3 = Some nxt"
    "efc_island d3 = Some el2" "island_efcadr d3 = Some adr2" "efc_islandnext d3 = Some nxt2"
    "nisland d3 = int K"
    by simp_all
  from s2 have l2: "\<forall>j<?ne. \<exists>t c. treeNext m d2 (-1) (int j) None = Inr (t, c) \<and>
          rd ''tree_island[treeNext]'' ti t = Inr (el2 ! j) \<and> el2 ! j \<noteq> -1"
    unfolding treeNext_same_inputs[OF si(1)] by simp
  from s1 have l1: "\<forall>j<?n. \<exists>t. rd ''dof_treeid'' (dof_treeid m) (int j) = Inr t \<and>
          rd ''tree_island[dof_treeid[i]]'' ti t = Inr (el ! j)" by simp
  from fields si(2) f1 f2 l1 l2 show ?thesis by blast
qed

lemma same_inputs_refl_upd:
  "same_inputs d (d\<lparr>pstack := ps, nisland := k\<rparr>)"
  by (simp add: same_inputs_def)

lemma same_inputs_trans: "same_inputs a b \<Longrightarrow> same_inputs b c \<Longrightarrow> same_inputs a c"
  by (simp add: same_inputs_def)

lemma mj_island_success:
  assumes "mj_island m d mem = Inr d'" and "nefc d \<noteq> 0" and "dof_island d' \<noteq> None"
  shows "\<exists>d1 ti d2 d3. island_discover m d mem = Inr (d1, ti) \<and>
           island_alloc m d1 mem = Inr d2 \<and> island_populate m d2 ti = Inr d3 \<and>
           d' = d3\<lparr>pstack := pstack d\<rparr>"
proof -
  from assms(1,2) obtain d1 ti where
    disc: "island_discover m d mem = Inr (d1, ti)" and
    rest: "(case island_alloc m d1 mem of
          Inl dF \<Rightarrow>
            Inr ((clearIsland (mj_warning dF mjWARN_CNSTRFULL (nstack dF * sizeof_mjtNum))
                    (parena d1))\<lparr>pstack := pstack d\<rparr>)
        | Inr d2 \<Rightarrow>
            bindE (island_populate m d2 ti) (\<lambda>d3.
            Inr (d3\<lparr>pstack := pstack d\<rparr>))) = Inr d'"
    by (auto simp: mj_island_def Let_def bindE_Inr_iff)
  show ?thesis
  proof (cases "island_alloc m d1 mem")
    case (Inl dF)
    with rest assms(3) show ?thesis by (auto simp: clearIsland_def)
  next
    case (Inr d2)
    with rest disc show ?thesis by (auto simp: bindE_Inr_iff)
  qed
qed

lemma mj_island_facts:
  assumes "mj_island m d mem = Inr d'" and "nefc d \<noteq> 0" and "dof_island d' \<noteq> None"
  shows "\<exists>d1 ti K el adr nxt el2 adr2 nxt2.
     island_discover m d mem = Inr (d1, ti) \<and> length ti = nat (ntree m) \<and>
     nisland d1 = int K \<and> nisland d' = int K \<and> same_inputs d d' \<and>
     dof_island d' = Some el \<and> island_dofadr d' = Some adr \<and> dof_islandnext d' = Some nxt \<and>
     efc_island d' = Some el2 \<and> island_efcadr d' = Some adr2 \<and>
     efc_islandnext d' = Some nxt2 \<and>
     thread_final (nat (nv m)) K el adr nxt \<and>
     (\<forall>j<nat (nv m). \<exists>t. rd ''dof_treeid'' (dof_treeid m) (int j) = Inr t \<and>
                           rd ''tree_island[dof_treeid[i]]'' ti t = Inr (el ! j)) \<and>
     thread_final (nat (nefc d)) K el2 adr2 nxt2 \<and>
     (\<forall>j<nat (nefc d). \<exists>t c. treeNext m d (-1) (int j) None = Inr (t, c) \<and>
                           rd ''tree_island[treeNext]'' ti t = Inr (el2 ! j) \<and> el2 ! j \<noteq> -1)"
proof -
  from mj_island_success[OF assms] obtain d1 ti d2 d3 where
    disc: "island_discover m d mem = Inr (d1, ti)" and
    al: "island_alloc m d1 mem = Inr d2" and
    pop: "island_populate m d2 ti = Inr d3" and
    d': "d' = d3\<lparr>pstack := pstack d\<rparr>" by blast
  from island_discover_basic[OF disc] obtain ps K where
    d1: "d1 = d\<lparr>pstack := ps, nisland := int K\<rparr>" and len: "length ti = nat (ntree m)"
    by blast
  have s1: "same_inputs d d1" unfolding d1 by (rule same_inputs_refl_upd)
  from island_alloc_success[OF al] obtain a1 a2 a3 a4 a5 a6 where
    s2: "same_inputs d1 d2" and k2: "nisland d2 = nisland d1" and
    arr: "island_dofadr d2 = Some a1" "dof_island d2 = Some a2" "dof_islandnext d2 = Some a3"
      "island_efcadr d2 = Some a4" "efc_island d2 = Some a5" "efc_islandnext d2 = Some a6" and
    lens: "length a1 = nat (nisland d1)" "length a2 = nat (nv m)" "length a3 = nat (nv m)"
      "length a4 = nat (nisland d1)" "length a5 = nat (nefc d1)" "length a6 = nat (nefc d1)"
    by blast
  have K1: "nisland d1 = int K" using d1 by simp
  from s1 s2 have s12: "same_inputs d d2" by (rule same_inputs_trans)
  then have ne: "nefc d2 = nefc d" by (simp add: same_inputs_def)
  from s2 have ne1: "nefc d1 = nefc d2" by (simp add: same_inputs_def)
  have K2: "nisland d2 = int K" using k2 K1 by simp
  from island_populate_success[OF pop K2 arr] lens K1 ne1
  obtain el adr nxt el2 adr2 nxt2 where
    f: "dof_island d3 = Some el" "island_dofadr d3 = Some adr" "dof_islandnext d3 = Some nxt"
      "efc_island d3 = Some el2" "island_efcadr d3 = Some adr2" "efc_islandnext d3 = Some nxt2"
      "nisland d3 = int K" "same_inputs d2 d3"
      "thread_final (nat (nv m)) K el adr nxt"
      "\<forall>j<nat (nv m). \<exists>t. rd ''dof_treeid'' (dof_treeid m) (int j) = Inr t \<and>
                           rd ''tree_island[dof_treeid[i]]'' ti t = Inr (el ! j)"
      "thread_final (nat (nefc d2)) K el2 adr2 nxt2"
      "\<forall>j<nat (nefc d2). \<exists>t c. treeNext m d2 (-1) (int j) None = Inr (t, c) \<and>
                           rd ''tree_island[treeNext]'' ti t = Inr (el2 ! j) \<and> el2 ! j \<noteq> -1"
    by auto
  from s12 f(8) have "same_inputs d d3" by (rule same_inputs_trans)
  then have sd: "same_inputs d d'" unfolding d' by (simp add: same_inputs_def)
  from f(1-7) d' have g:
    "dof_island d' = Some el" "island_dofadr d' = Some adr" "dof_islandnext d' = Some nxt"
    "efc_island d' = Some el2" "island_efcadr d' = Some adr2" "efc_islandnext d' = Some nxt2"
    "nisland d' = int K" by simp_all
  from f(11,12) have h: "thread_final (nat (nefc d)) K el2 adr2 nxt2"
    "\<forall>j<nat (nefc d). \<exists>t c. treeNext m d (-1) (int j) None = Inr (t, c) \<and>
                           rd ''tree_island[treeNext]'' ti t = Inr (el2 ! j) \<and> el2 ! j \<noteq> -1"
    unfolding ne treeNext_same_inputs[OF s12] by simp_all
  from disc len K1 sd g f(9,10) h show ?thesis by blast
qed

lemma walk_sorted_exact:
  assumes fin: "thread_final n K el adr nxt" and k: "0 \<le> k" "k < int K" and n: "n = nat nn"
  shows "\<exists>xs. walk nxt n (adr ! nat k) = Some xs \<and> sorted_wrt (<) xs \<and>
           set xs = {i. 0 \<le> i \<and> i < nn \<and> el ! nat i = k}"
proof -
  from k obtain k0 where k0: "k = int k0" "k0 < K" "nat k = k0"
    by (metis nat_0_le nat_less_iff)
  let ?xs = "map int (filter (\<lambda>x. el ! x = int k0) [0..<n])"
  from walk_island[OF fin k0(2) order_refl] k0 have
    w: "walk nxt n (adr ! nat k) = Some ?xs" by simp
  have s: "sorted_wrt (<) ?xs"
    by (simp add: sorted_wrt_map sorted_wrt_filter)
  have "set ?xs = {i. 0 \<le> i \<and> i < nn \<and> el ! nat i = k}"
  proof (intro set_eqI iffI)
    fix i assume "i \<in> set ?xs"
    then obtain x where "i = int x" "x < n" "el ! x = int k0" by auto
    with n k0 show "i \<in> {i. 0 \<le> i \<and> i < nn \<and> el ! nat i = k}" by auto
  next
    fix i assume "i \<in> {i. 0 \<le> i \<and> i < nn \<and> el ! nat i = k}"
    then have i: "0 \<le> i" "i < nn" "el ! nat i = k" by simp_all
    then have "nat i < n" "i = int (nat i)" using n by simp_all
    with i k0 show "i \<in> set ?xs" by (auto simp: image_iff intro!: bexI[of _ "nat i"])
  qed
  with w s show ?thesis by blast
qed

subsection \<open>The per-island lists\<close>

text \<open>
  C4.  After a call of \<^verbatim>\<open>mj_island\<close> that returns the island arrays, for every island
  \<open>k\<close> in \<open>[0, nisland)\<close>: following \<^verbatim>\<open>dof_islandnext\<close> from \<^verbatim>\<open>island_dofadr[k]\<close> reaches the
  sentinel \<open>-1\<close> (within \<open>nv\<close> steps) and visits a strictly ascending list whose elements
  are exactly the DoFs \<open>i\<close> with \<^verbatim>\<open>dof_island[i] = k\<close>; the same holds of the constraint rows,
  with \<^verbatim>\<open>efc_islandnext\<close>, \<^verbatim>\<open>island_efcadr\<close> and \<^verbatim>\<open>efc_island\<close>.
\<close>

theorem mj_island_threads_lists:
  assumes "mj_island m d mem = Inr d'"
    and "dof_island d' = Some el" "island_dofadr d' = Some adr" "dof_islandnext d' = Some nxt"
    and "efc_island d' = Some el2" "island_efcadr d' = Some adr2"
      "efc_islandnext d' = Some nxt2"
    and "0 \<le> k" "k < nisland d'"
  shows "(\<exists>xs. walk nxt (nat (nv m)) (adr ! nat k) = Some xs \<and> sorted_wrt (<) xs \<and>
            set xs = {i. 0 \<le> i \<and> i < nv m \<and> el ! nat i = k}) \<and>
         (\<exists>ys. walk nxt2 (nat (nefc d)) (adr2 ! nat k) = Some ys \<and> sorted_wrt (<) ys \<and>
            set ys = {i. 0 \<le> i \<and> i < nefc d \<and> el2 ! nat i = k})"
proof -
  have ne: "nefc d \<noteq> 0"
  proof
    assume "nefc d = 0"
    with assms(1) have "nisland d' = 0" by (auto simp: mj_island_def)
    with assms(8,9) show False by simp
  qed
  from assms(2) have "dof_island d' \<noteq> None" by simp
  from mj_island_facts[OF assms(1) ne this] assms(2-7) obtain K where
    K: "nisland d' = int K" and
    f1: "thread_final (nat (nv m)) K el adr nxt" and
    f2: "thread_final (nat (nefc d)) K el2 adr2 nxt2"
    by auto
  from assms(9) K have k: "k < int K" by simp
  from walk_sorted_exact[OF f1 assms(8) k refl] walk_sorted_exact[OF f2 assms(8) k refl]
  show ?thesis by blast
qed

theorem mj_island_threads_lists_witness:
  "mj_island tendon_model tendon_data mem0 = Inr tendon_result \<and>
   (\<exists>xs. walk [1, 2, -1, -1] (nat (nv tendon_model)) ([0] ! nat 0) = Some xs \<and>
      sorted_wrt (<) xs \<and>
      set xs = {i. 0 \<le> i \<and> i < nv tendon_model \<and> [0, 0, 0, -1] ! nat i = (0::int)}) \<and>
   (\<exists>ys. walk [1, -1] (nat (nefc tendon_data)) ([0] ! nat 0) = Some ys \<and>
      sorted_wrt (<) ys \<and>
      set ys = {i. 0 \<le> i \<and> i < nefc tendon_data \<and> [0, 0] ! nat i = (0::int)})"
proof -
  have h: "mj_island tendon_model tendon_data mem0 = Inr tendon_result" by code_simp
  have f: "dof_island tendon_result = Some [0, 0, 0, -1]"
    "island_dofadr tendon_result = Some [0]"
    "dof_islandnext tendon_result = Some [1, 2, -1, -1]"
    "efc_island tendon_result = Some [0, 0]"
    "island_efcadr tendon_result = Some [0]"
    "efc_islandnext tendon_result = Some [1, -1]"
    by (simp_all add: tendon_result_def)
  have k: "(0::int) \<le> 0" "0 < nisland tendon_result" by (simp_all add: tendon_result_def)
  show ?thesis by (rule conjI[OF h mj_island_threads_lists[OF h f k]])
qed

subsection \<open>The range of dof\_treeid\<close>

lemma foldE_Inl: "foldE f xs s = Inl e \<Longrightarrow> \<exists>x\<in>set xs. \<exists>s'. f x s' = Inl e"
proof (induction xs arbitrary: s)
  case Nil
  then show ?case by simp
next
  case (Cons x xs)
  then show ?case by (cases "f x s") auto
qed

lemma island_dof_step_tree_island_error:
  assumes "island_dof_step m ti i s = Inl (OutOfBounds ''tree_island[dof_treeid[i]]'')"
  shows "\<exists>t. rd ''dof_treeid'' (dof_treeid m) i = Inr t \<and> \<not> (0 \<le> t \<and> t < int (length ti))"
proof -
  obtain el adr nxt lst cnt where s: "s = (el, adr, nxt, lst, cnt)" by (cases s) auto
  have n1: "rd ''dof_treeid'' xs j \<noteq> Inl (OutOfBounds ''tree_island[dof_treeid[i]]'')"
    for xs :: "int list" and j
    by (simp add: rd_def)
  have n2: "wr ''dof_island'' xs j v \<noteq> Inl (OutOfBounds ''tree_island[dof_treeid[i]]'')"
    "wr ''dof_islandnext'' xs j v \<noteq> Inl (OutOfBounds ''tree_island[dof_treeid[i]]'')"
    for xs :: "int list" and j v
    by (simp_all add: wr_def)
  have n3: "island_link ''island_dofadr'' ''dof_islandnext'' j v q \<noteq>
      Inl (OutOfBounds ''tree_island[dof_treeid[i]]'')" for j v q
    by (cases q) (auto simp: island_link_def bindE_Inl_iff rd_def wr_def split: if_splits)
  from assms[unfolded s island_dof_step_def prod.case] n1 n2 n3
  obtain t where t: "rd ''dof_treeid'' (dof_treeid m) i = Inr t"
    and "rd ''tree_island[dof_treeid[i]]'' ti t = Inl (OutOfBounds ''tree_island[dof_treeid[i]]'')"
    by (auto simp: bindE_Inl_iff split: if_splits prod.splits)
  then show ?thesis by (auto simp: rd_def split: if_splits)
qed

text \<open>
  C10.  The sweep over the DoFs reads \<^verbatim>\<open>tree_island[dof_treeid[i]]\<close> without a guard.  A call
  of \<^verbatim>\<open>mj_island\<close> with constraints that completes the sweep has \<open>dof_treeid[i]\<close> in
  \<open>[0, ntree)\<close> for every DoF \<open>i < nv\<close>; a DoF whose tree id is outside the bounds of
  \<^verbatim>\<open>tree_island\<close> (the sentinel \<open>-1\<close>, say) makes the body of the sweep read out of bounds; and when
  every \<open>dof_treeid[i]\<close> is in \<open>[0, ntree)\<close>, no read of \<^verbatim>\<open>tree_island[dof_treeid[i]]\<close> in the
  sweep is out of bounds.
\<close>

theorem mj_island_dof_treeid_range:
  "(mj_island m d mem = Inr d' \<and> nefc d \<noteq> 0 \<and> dof_island d' \<noteq> None \<longrightarrow>
      (\<forall>i. 0 \<le> i \<and> i < nv m \<longrightarrow>
         0 \<le> dof_treeid m ! nat i \<and> dof_treeid m ! nat i < ntree m)) \<and>
   (rd ''dof_treeid'' (dof_treeid m) j = Inr t \<and> \<not> (0 \<le> t \<and> t < int (length ti)) \<longrightarrow>
      island_dof_step m ti j s = Inl (OutOfBounds ''tree_island[dof_treeid[i]]'')) \<and>
   (length ti = nat (ntree m) \<and>
    (\<forall>i. 0 \<le> i \<and> i < nv m \<longrightarrow> 0 \<le> dof_treeid m ! nat i \<and> dof_treeid m ! nat i < ntree m) \<longrightarrow>
      for_loop 0 (nv m) (island_dof_step m ti) s0 \<noteq>
        Inl (OutOfBounds ''tree_island[dof_treeid[i]]''))"
proof (intro conjI impI allI)
  fix i assume h: "mj_island m d mem = Inr d' \<and> nefc d \<noteq> 0 \<and> dof_island d' \<noteq> None"
    and i: "0 \<le> i \<and> i < nv m"
  from h have h': "mj_island m d mem = Inr d'" "nefc d \<noteq> 0" "dof_island d' \<noteq> None"
    by simp_all
  from mj_island_facts[OF h'] obtain tis el :: "int list" where
    len: "length tis = nat (ntree m)" and
    l: "\<forall>j<nat (nv m). \<exists>t. rd ''dof_treeid'' (dof_treeid m) (int j) = Inr t \<and>
                           rd ''tree_island[dof_treeid[i]]'' tis t = Inr (el ! j)"
    by blast
  from i have ni: "nat i < nat (nv m)" and ii: "int (nat i) = i" by simp_all
  from l ni have "\<exists>t. rd ''dof_treeid'' (dof_treeid m) (int (nat i)) = Inr t \<and>
      rd ''tree_island[dof_treeid[i]]'' tis t = Inr (el ! nat i)" by blast
  then obtain t where "rd ''dof_treeid'' (dof_treeid m) i = Inr t"
    "rd ''tree_island[dof_treeid[i]]'' tis t = Inr (el ! nat i)"
    unfolding ii by blast
  with len show "0 \<le> dof_treeid m ! nat i" "dof_treeid m ! nat i < ntree m"
    by (auto simp: rd_Inr_iff)
next
  assume "rd ''dof_treeid'' (dof_treeid m) j = Inr t \<and> \<not> (0 \<le> t \<and> t < int (length ti))"
  then show "island_dof_step m ti j s = Inl (OutOfBounds ''tree_island[dof_treeid[i]]'')"
    by (cases s) (auto simp: island_dof_step_def rd_def)
next
  assume h: "length ti = nat (ntree m) \<and>
    (\<forall>i. 0 \<le> i \<and> i < nv m \<longrightarrow> 0 \<le> dof_treeid m ! nat i \<and> dof_treeid m ! nat i < ntree m)"
  show "for_loop 0 (nv m) (island_dof_step m ti) s0 \<noteq>
        Inl (OutOfBounds ''tree_island[dof_treeid[i]]'')"
  proof
    assume "for_loop 0 (nv m) (island_dof_step m ti) s0 =
        Inl (OutOfBounds ''tree_island[dof_treeid[i]]'')"
    from foldE_Inl[OF this[unfolded for_loop_def]] obtain k s' where
      k: "k < nat (nv m)" and
      e: "island_dof_step m ti (int k) s' = Inl (OutOfBounds ''tree_island[dof_treeid[i]]'')"
      by auto
    from island_dof_step_tree_island_error[OF e] obtain t' where
      t: "rd ''dof_treeid'' (dof_treeid m) (int k) = Inr t'"
        "\<not> (0 \<le> t' \<and> t' < int (length ti))" by blast
    from h have "0 \<le> int k \<and> int k < nv m \<longrightarrow>
        0 \<le> dof_treeid m ! nat (int k) \<and> dof_treeid m ! nat (int k) < ntree m" by blast
    with k have "0 \<le> dof_treeid m ! k \<and> dof_treeid m ! k < ntree m" by simp
    with t h show False by (auto simp: rd_Inr_iff)
  qed
qed

theorem mj_island_dof_treeid_range_witness:
  "mj_island tendon_model tendon_data mem0 = Inr tendon_result \<and> nefc tendon_data \<noteq> 0 \<and>
   dof_island tendon_result \<noteq> None \<and>
   0 \<le> dof_treeid tendon_model ! nat 3 \<and> dof_treeid tendon_model ! nat 3 < ntree tendon_model \<and>
   rd ''dof_treeid'' (dof_treeid (tendon_model\<lparr>dof_treeid := [0, 0, 1, -1]\<rparr>)) 3 = Inr (-1) \<and>
   island_dof_step (tendon_model\<lparr>dof_treeid := [0, 0, 1, -1]\<rparr>) [0, 0, -1] 3
     ([0, 0, 0, 7], [0], [1, 2, 7, 7], [2], 1) = Inl (OutOfBounds ''tree_island[dof_treeid[i]]'') \<and>
   for_loop 0 (nv tendon_model) (island_dof_step tendon_model [0, 0, -1])
     ([7, 7, 7, 7], [7], [7, 7, 7, 7], [-1], 0) \<noteq> Inl (OutOfBounds ''tree_island[dof_treeid[i]]'')"
proof -
  have h: "mj_island tendon_model tendon_data mem0 = Inr tendon_result \<and>
    nefc tendon_data \<noteq> 0 \<and> dof_island tendon_result \<noteq> None" by code_simp
  have i: "(0::int) \<le> 3 \<and> 3 < nv tendon_model" by code_simp
  have r: "rd ''dof_treeid'' (dof_treeid (tendon_model\<lparr>dof_treeid := [0, 0, 1, -1]\<rparr>)) 3
      = Inr (-1) \<and> \<not> (0 \<le> (-1::int) \<and> (-1::int) < int (length [0, 0, -1 :: int]))"
    by code_simp
  note T = mj_island_dof_treeid_range[where m = tendon_model and d = tendon_data
      and mem = mem0 and d' = tendon_result and ti = "[0, 0, -1]"
      and ?s0.0 = "([7, 7, 7, 7], [7], [7, 7, 7, 7], [-1], 0)"]
  from T[THEN conjunct1, rule_format, OF h] have all:
    "\<forall>i. 0 \<le> i \<and> i < nv tendon_model \<longrightarrow>
       0 \<le> dof_treeid tendon_model ! nat i \<and> dof_treeid tendon_model ! nat i < ntree tendon_model"
    by blast
  have len: "length [0, 0, -1 :: int] = nat (ntree tendon_model)" by code_simp
  from T[THEN conjunct2, THEN conjunct2, rule_format, OF conjI[OF len all]] have c:
    "for_loop 0 (nv tendon_model) (island_dof_step tendon_model [0, 0, -1])
     ([7, 7, 7, 7], [7], [7, 7, 7, 7], [-1], 0) \<noteq> Inl (OutOfBounds ''tree_island[dof_treeid[i]]'')" .
  from mj_island_dof_treeid_range[where m = "tendon_model\<lparr>dof_treeid := [0, 0, 1, -1]\<rparr>"
      and j = 3 and t = "-1" and ti = "[0, 0, -1]"
      and s = "([0, 0, 0, 7], [0], [1, 2, 7, 7], [2], 1)",
      THEN conjunct2, THEN conjunct1, rule_format, OF r] have b:
    "island_dof_step (tendon_model\<lparr>dof_treeid := [0, 0, 1, -1]\<rparr>) [0, 0, -1] 3
     ([0, 0, 0, 7], [0], [1, 2, 7, 7], [2], 1) = Inl (OutOfBounds ''tree_island[dof_treeid[i]]'')" .
  from all i have a: "0 \<le> dof_treeid tendon_model ! nat 3 \<and>
      dof_treeid tendon_model ! nat 3 < ntree tendon_model" by blast
  from h have h1: "mj_island tendon_model tendon_data mem0 = Inr tendon_result"
    and h2: "nefc tendon_data \<noteq> 0" and h3: "dof_island tendon_result \<noteq> None" by blast+
  from a have a1: "0 \<le> dof_treeid tendon_model ! nat 3"
    and a2: "dof_treeid tendon_model ! nat 3 < ntree tendon_model" by blast+
  from r have r1: "rd ''dof_treeid'' (dof_treeid (tendon_model\<lparr>dof_treeid := [0, 0, 1, -1]\<rparr>)) 3
      = Inr (-1)" by (rule conjunct1)
  from h1 h2 h3 a1 a2 r1 b c show ?thesis by (intro conjI)
qed

end
